theory Spec2Isabelle
  imports Main "HOL-Library.Sublist" "HOL-Library.Word"
begin

section \<open>The host platform, as far as \<open>src/index.ts\<close> uses it\<close>

text \<open>
  \<open>index.ts\<close> is glue between four host facilities: \<open>Promise\<close>, the \<open>EventTarget\<close>
  interface of a \<open>WebSocket\<close>, and the controllers of a \<open>ReadableStream\<close> and a
  \<open>WritableStream\<close>. Each facility is modelled by the part of its standard behaviour
  that the glue can observe. Every handler runs to completion (with the microtasks it
  queues) before the next event: the program is single threaded.
\<close>

subsection \<open>Values\<close>

text \<open>Values that are thrown or used as rejection reasons: \<open>undefined\<close>, a string, or an
  error object with its constructor's name and its message.\<close>

datatype js_value = Undefined | JSString string | JSError string string

text \<open>\<^verbatim>\<open>type WebSocketSendType = string | ArrayBufferLike | Blob | ArrayBufferView\<close>\<close>

datatype WebSocketSendType =
    SendString string
  | SendArrayBuffer "8 word list"
  | SendBlob "8 word list"
  | SendArrayBufferView "8 word list"

text \<open>\<^verbatim>\<open>type WebSocketMessageDataType = ArrayBuffer | string\<close>\<close>

datatype WebSocketMessageDataType =
    ArrayBuffer "8 word list"
  | String string

subsection \<open>Promises\<close>

text \<open>A promise is settled at most once: \<open>resolve\<close> and \<open>reject\<close> on a settled promise
  do nothing.\<close>

datatype 'a promise = Pending | Fulfilled 'a | Rejected js_value

definition resolve :: "'a promise \<Rightarrow> 'a \<Rightarrow> 'a promise" where
  "resolve p v = (case p of Pending \<Rightarrow> Fulfilled v | _ \<Rightarrow> p)"

definition reject :: "'a promise \<Rightarrow> js_value \<Rightarrow> 'a promise" where
  "reject p e = (case p of Pending \<Rightarrow> Rejected e | _ \<Rightarrow> p)"

subsection \<open>ReadableStream and its default controller\<close>

datatype readable_state = Readable | RClosed | RErrored js_value

text \<open>What one \<open>reader.read()\<close> settles with.\<close>

datatype read_result = Item WebSocketMessageDataType | Done | ReadError js_value

text \<open>
  \<open>readRequests\<close> counts the reads that wait for a chunk; \<open>yielded\<close> lists what the
  reads so far have settled with, oldest first (waiting reads are served first in, first
  out, so this is also the order of the \<open>read()\<close> calls).
\<close>

record ReadableStream =
  r_state :: readable_state
  rqueue :: "WebSocketMessageDataType list"
  closeRequested :: bool
  readRequests :: nat
  yielded :: "read_result list"

definition fresh_readable :: ReadableStream where
  "fresh_readable =
     \<lparr>r_state = Readable, rqueue = [], closeRequested = False, readRequests = 0, yielded = []\<rparr>"

definition CanCloseOrEnqueue :: "ReadableStream \<Rightarrow> bool" where
  "CanCloseOrEnqueue r = (\<not> closeRequested r \<and> r_state r = Readable)"

definition ReadableStreamClose :: "ReadableStream \<Rightarrow> ReadableStream" where
  "ReadableStreamClose r =
     r\<lparr>r_state := RClosed,
       yielded := yielded r @ replicate (readRequests r) Done,
       readRequests := 0\<rparr>"

text \<open>\<open>controller.enqueue(chunk)\<close>: throws a TypeError unless the stream is readable and no
  close was requested; hands the chunk to the oldest waiting read, or queues it.\<close>

definition controller_enqueue ::
  "ReadableStream \<Rightarrow> WebSocketMessageDataType \<Rightarrow> js_value + ReadableStream" where
  "controller_enqueue r chunk =
     (if \<not> CanCloseOrEnqueue r then Inl (JSError ''TypeError'' ''Invalid state: enqueue'')
      else if 0 < readRequests r
        then Inr (r\<lparr>readRequests := readRequests r - 1, yielded := yielded r @ [Item chunk]\<rparr>)
      else Inr (r\<lparr>rqueue := rqueue r @ [chunk]\<rparr>))"

text \<open>\<open>controller.close()\<close>: throws a TypeError under the same condition; the stream
  closes at once when its queue is empty, and after the last queued chunk is read
  otherwise.\<close>

definition controller_close :: "ReadableStream \<Rightarrow> js_value + ReadableStream" where
  "controller_close r =
     (if \<not> CanCloseOrEnqueue r then Inl (JSError ''TypeError'' ''Invalid state: close'')
      else if rqueue r = [] then Inr (ReadableStreamClose (r\<lparr>closeRequested := True\<rparr>))
      else Inr (r\<lparr>closeRequested := True\<rparr>))"

text \<open>\<open>reader.read()\<close>\<close>

definition reader_read :: "ReadableStream \<Rightarrow> ReadableStream" where
  "reader_read r =
     (case r_state r of
        RClosed \<Rightarrow> r\<lparr>yielded := yielded r @ [Done]\<rparr>
      | RErrored e \<Rightarrow> r\<lparr>yielded := yielded r @ [ReadError e]\<rparr>
      | Readable \<Rightarrow>
          (case rqueue r of
             [] \<Rightarrow> r\<lparr>readRequests := readRequests r + 1\<rparr>
           | x # q \<Rightarrow>
               (if closeRequested r \<and> q = []
                then ReadableStreamClose (r\<lparr>rqueue := q, yielded := yielded r @ [Item x]\<rparr>)
                else r\<lparr>rqueue := q, yielded := yielded r @ [Item x]\<rparr>)))"

text \<open>\<open>reader.cancel()\<close>: on a readable stream it closes the stream, drops the queue
  and calls the source's \<open>cancel\<close> hook (the flag returned); on a closed or errored stream
  it does nothing.\<close>

definition ReadableStreamCancel :: "ReadableStream \<Rightarrow> bool \<times> ReadableStream" where
  "ReadableStreamCancel r =
     (case r_state r of
        Readable \<Rightarrow> (True, (ReadableStreamClose r)\<lparr>rqueue := []\<rparr>)
      | _ \<Rightarrow> (False, r))"

subsection \<open>WritableStream and its default controller\<close>

datatype writable_state = Writable | WClosed | WErrored js_value

text \<open>\<open>write_results\<close> lists what the \<open>writer.write()\<close> calls so far have settled with.\<close>

record WritableStream =
  w_state :: writable_state
  write_results :: "unit promise list"

definition fresh_writable :: WritableStream where
  "fresh_writable = \<lparr>w_state = Writable, write_results = []\<rparr>"

text \<open>\<open>controller.error(e)\<close> returns without effect unless the stream is writable.\<close>

definition controller_error :: "WritableStream \<Rightarrow> js_value \<Rightarrow> WritableStream" where
  "controller_error w e = (if w_state w = Writable then w\<lparr>w_state := WErrored e\<rparr> else w)"

text \<open>
  \<open>writer.write(chunk)\<close>: the sink's \<open>write\<close> hook is called only on a writable stream;
  \<open>thrown\<close> is what the hook throws there, if anything. An exception of the hook rejects
  the write and errors the stream with it. On a closed stream the write is rejected with a
  TypeError, on an errored stream with the stored error; the hook is not called.
\<close>

definition writer_write :: "WritableStream \<Rightarrow> js_value option \<Rightarrow> WritableStream" where
  "writer_write w thrown =
     (case w_state w of
        Writable \<Rightarrow>
          (case thrown of
             None \<Rightarrow> w\<lparr>write_results := write_results w @ [Fulfilled ()]\<rparr>
           | Some e \<Rightarrow> w\<lparr>w_state := WErrored e, write_results := write_results w @ [Rejected e]\<rparr>)
      | WClosed \<Rightarrow>
          w\<lparr>write_results := write_results w
               @ [Rejected (JSError ''TypeError'' ''Invalid state: write'')]\<rparr>
      | WErrored e \<Rightarrow> w\<lparr>write_results := write_results w @ [Rejected e]\<rparr>)"

text \<open>\<open>writer.close()\<close>: on a writable stream the sink's \<open>close\<close> hook is called and the
  stream is closed once the hook has returned; otherwise nothing is called.\<close>

definition writer_close :: "WritableStream \<Rightarrow> WritableStream" where
  "writer_close w = (case w_state w of Writable \<Rightarrow> w\<lparr>w_state := WClosed\<rparr> | _ \<Rightarrow> w)"

text \<open>\<open>writer.abort(reason)\<close>: on a writable stream the stream is errored with the reason
  and the sink's \<open>abort\<close> hook is called with it; otherwise nothing is called.\<close>

definition writer_abort :: "WritableStream \<Rightarrow> js_value \<Rightarrow> WritableStream" where
  "writer_abort w rsn = (case w_state w of Writable \<Rightarrow> w\<lparr>w_state := WErrored rsn\<rparr> | _ \<Rightarrow> w)"

subsection \<open>The WebSocket\<close>

text \<open>
  The listeners that \<open>index.ts\<close> registers, one constructor per \<open>addEventListener\<close>
  call of the source. A stream's controller is captured by its listeners; here it is the
  stream's index in the store of constructed streams.
\<close>

datatype open_listener = OpenedResolve

datatype error_listener = OpenedReject

datatype message_listener = Enqueue nat

datatype close_listener = ClosedResolve | ReadableClose nat | WritableError nat

datatype protocols = Protocol string | Protocols "string list"

text \<open>
  The socket as the adapter sees it: the arguments it was constructed with, the fields
  the adapter reads or sets, the registered listeners in registration order, and the
  calls of \<open>send\<close> and \<open>close\<close> it has received.
\<close>

record WebSocket =
  ctor_url :: string
  ctor_protocols :: "protocols option"
  ws_protocol :: string
  ws_extensions :: string
  binaryType :: string
  on_open :: "open_listener list"
  on_message :: "message_listener list"
  on_close :: "close_listener list"
  on_error :: "error_listener list"
  send_calls :: "WebSocketSendType list"
  close_calls :: "(int option \<times> string option) list"

section \<open>\<open>class WebSocketStream\<close>\<close>

record WebSocketStreamOpened =
  extensions :: string
  protocol :: string
  readable :: nat
  writable :: nat

record WebSocketStreamClosed =
  closeCode :: int
  reason :: string

text \<open>
  An instance: the private socket \<open>_ws\<close>, the two promises, and what the instance's
  closures refer to: the streams constructed so far, whether the one-shot
  \<open>abort\<close> listener is still registered on the supplied signal, and the exceptions that
  escaped from an event listener (the host reports them; no promise sees them).
\<close>

record WebSocketStream =
  ws :: WebSocket
  opened :: "WebSocketStreamOpened promise"
  closed :: "WebSocketStreamClosed promise"
  readables :: "ReadableStream list"
  writables :: "WritableStream list"
  abort_listener :: bool
  uncaught :: "js_value list"

subsection \<open>Socket calls\<close>

definition ws_send :: "WebSocketStream \<Rightarrow> WebSocketSendType \<Rightarrow> WebSocketStream" where
  "ws_send s chunk = s\<lparr>ws := (ws s)\<lparr>send_calls := send_calls (ws s) @ [chunk]\<rparr>\<rparr>"

definition ws_close :: "WebSocketStream \<Rightarrow> int option \<Rightarrow> string option \<Rightarrow> WebSocketStream" where
  "ws_close s code rsn = s\<lparr>ws := (ws s)\<lparr>close_calls := close_calls (ws s) @ [(code, rsn)]\<rparr>\<rparr>"

text \<open>\<^verbatim>\<open>close({ closeCode, reason } = {}) { this._ws.close(closeCode, reason); }\<close>\<close>

definition close :: "WebSocketStream \<Rightarrow> int option \<Rightarrow> string option \<Rightarrow> WebSocketStream" where
  "close s code rsn = ws_close s code rsn"

subsection \<open>Stream construction (lines 94 to 108)\<close>

text \<open>\<open>new ReadableStream({start, cancel})\<close>: \<open>start\<close> runs inside the constructor and
  registers the message listener, then the close listener.\<close>

definition new_ReadableStream :: "WebSocketStream \<Rightarrow> nat \<times> WebSocketStream" where
  "new_ReadableStream s =
     (let h = length (readables s) in
      (h, s\<lparr>readables := readables s @ [fresh_readable],
             ws := (ws s)\<lparr>on_message := on_message (ws s) @ [Enqueue h],
                          on_close := on_close (ws s) @ [ReadableClose h]\<rparr>\<rparr>))"

text \<open>\<open>new WritableStream({start, write, close, abort})\<close>: \<open>start\<close> registers the close
  listener.\<close>

definition new_WritableStream :: "WebSocketStream \<Rightarrow> nat \<times> WebSocketStream" where
  "new_WritableStream s =
     (let h = length (writables s) in
      (h, s\<lparr>writables := writables s @ [fresh_writable],
             ws := (ws s)\<lparr>on_close := on_close (ws s) @ [WritableError h]\<rparr>\<rparr>))"

subsection \<open>The listeners\<close>

text \<open>Line 91: the object literal is evaluated field by field, then \<open>resolve\<close> is called.\<close>

definition invoke_open :: "open_listener \<Rightarrow> WebSocketStream \<Rightarrow> js_value + WebSocketStream" where
  "invoke_open l s =
     (case l of OpenedResolve \<Rightarrow>
        (let ext = ws_extensions (ws s);
             proto = ws_protocol (ws s);
             (r, s1) = new_ReadableStream s;
             (w, s2) = new_WritableStream s1
         in Inr (s2\<lparr>opened := resolve (opened s2)
                   \<lparr>extensions = ext, protocol = proto, readable = r, writable = w\<rparr>\<rparr>)))"

text \<open>Line 110\<close>

definition invoke_error :: "error_listener \<Rightarrow> WebSocketStream \<Rightarrow> js_value + WebSocketStream" where
  "invoke_error l s =
     (case l of OpenedReject \<Rightarrow>
        Inr (s\<lparr>opened := reject (opened s) (JSError ''Error'' ''WebSocket error'')\<rparr>))"

text \<open>Line 96: an exception of \<open>enqueue\<close> escapes from the listener.\<close>

definition invoke_message ::
  "WebSocketMessageDataType \<Rightarrow> message_listener \<Rightarrow> WebSocketStream \<Rightarrow> js_value + WebSocketStream" where
  "invoke_message data l s =
     (case l of Enqueue h \<Rightarrow>
        (if h < length (readables s)
         then (case controller_enqueue (readables s ! h) data of
                 Inl e \<Rightarrow> Inl e
               | Inr r \<Rightarrow> Inr (s\<lparr>readables := (readables s)[h := r]\<rparr>))
         else Inr s))"

text \<open>Lines 113 to 118, 97 to 99 (\<^verbatim>\<open>try { controller.close(); } catch {}\<close>) and 104.\<close>

definition invoke_close ::
  "int \<Rightarrow> string \<Rightarrow> close_listener \<Rightarrow> WebSocketStream \<Rightarrow> js_value + WebSocketStream" where
  "invoke_close code rsn l s =
     (case l of
        ClosedResolve \<Rightarrow>
          Inr (s\<lparr>closed := resolve (closed s) \<lparr>closeCode = code, reason = rsn\<rparr>\<rparr>)
      | ReadableClose h \<Rightarrow>
          (if h < length (readables s)
           then (case controller_close (readables s ! h) of
                   Inl e \<Rightarrow> Inr s
                 | Inr r \<Rightarrow> Inr (s\<lparr>readables := (readables s)[h := r]\<rparr>))
           else Inr s)
      | WritableError h \<Rightarrow>
          (if h < length (writables s)
           then Inr (s\<lparr>writables := (writables s)[h := controller_error (writables s ! h) Undefined]\<rparr>)
           else Inr s))"

text \<open>Event dispatch calls the listeners registered when the dispatch starts, in
  registration order; an exception that escapes from one is reported and the next
  listener still runs.\<close>

fun dispatch ::
  "('l \<Rightarrow> WebSocketStream \<Rightarrow> js_value + WebSocketStream) \<Rightarrow> 'l list \<Rightarrow> WebSocketStream \<Rightarrow> WebSocketStream" where
  "dispatch f [] s = s"
| "dispatch f (l # ls) s =
     (case f l s of
        Inl e \<Rightarrow> dispatch f ls (s\<lparr>uncaught := uncaught s @ [e]\<rparr>)
      | Inr s' \<Rightarrow> dispatch f ls s')"

subsection \<open>The stream hooks, driven through the streams of the \<open>opened\<close> result\<close>

text \<open>The caller reaches a stream only through the value that \<open>opened\<close> is fulfilled
  with; while \<open>opened\<close> is not fulfilled there is no stream to operate on.\<close>

text \<open>\<open>reader.read()\<close>: no hook of the adapter runs.\<close>

definition readable_read :: "WebSocketStream \<Rightarrow> WebSocketStream" where
  "readable_read s =
     (case opened s of
        Fulfilled o' \<Rightarrow>
          (if readable o' < length (readables s)
           then s\<lparr>readables := (readables s)[readable o' := reader_read (readables s ! readable o')]\<rparr>
           else s)
      | _ \<Rightarrow> s)"

text \<open>\<open>reader.cancel()\<close>; line 101: \<^verbatim>\<open>cancel: () => this._ws.close()\<close>\<close>

definition readable_cancel :: "WebSocketStream \<Rightarrow> WebSocketStream" where
  "readable_cancel s =
     (case opened s of
        Fulfilled o' \<Rightarrow>
          (if readable o' < length (readables s)
           then (case ReadableStreamCancel (readables s ! readable o') of
                   (hook, r) \<Rightarrow>
                     (let s1 = s\<lparr>readables := (readables s)[readable o' := r]\<rparr>
                      in if hook then ws_close s1 None None else s1))
           else s)
      | _ \<Rightarrow> s)"

text \<open>\<open>writer.write(chunk)\<close>; line 105: \<^verbatim>\<open>write: chunk => this._ws.send(chunk)\<close>.
  \<open>thrown\<close> is what the socket's \<open>send\<close> throws at this call, if anything; the hook does
  not catch it.\<close>

definition writable_write ::
  "WebSocketStream \<Rightarrow> WebSocketSendType \<Rightarrow> js_value option \<Rightarrow> WebSocketStream" where
  "writable_write s chunk thrown =
     (case opened s of
        Fulfilled o' \<Rightarrow>
          (if writable o' < length (writables s)
           then (let w = writables s ! writable o';
                     s1 = (if w_state w = Writable then ws_send s chunk else s)
                 in s1\<lparr>writables := (writables s)[writable o' := writer_write w thrown]\<rparr>)
           else s)
      | _ \<Rightarrow> s)"

text \<open>\<open>writer.close()\<close>; line 106: \<^verbatim>\<open>close: () => this._ws.close()\<close>\<close>

definition writable_close :: "WebSocketStream \<Rightarrow> WebSocketStream" where
  "writable_close s =
     (case opened s of
        Fulfilled o' \<Rightarrow>
          (if writable o' < length (writables s)
           then (let w = writables s ! writable o';
                     s1 = (if w_state w = Writable then ws_close s None None else s)
                 in s1\<lparr>writables := (writables s)[writable o' := writer_close w]\<rparr>)
           else s)
      | _ \<Rightarrow> s)"

text \<open>\<open>writer.abort(reason)\<close>; line 107:
  \<^verbatim>\<open>abort: (reason: string) => this._ws.close(undefined, reason)\<close>\<close>

definition writable_abort :: "WebSocketStream \<Rightarrow> string \<Rightarrow> WebSocketStream" where
  "writable_abort s rsn =
     (case opened s of
        Fulfilled o' \<Rightarrow>
          (if writable o' < length (writables s)
           then (let w = writables s ! writable o';
                     s1 = (if w_state w = Writable then ws_close s None (Some rsn) else s)
                 in s1\<lparr>writables := (writables s)[writable o' := writer_abort w (JSString rsn)]\<rparr>)
           else s)
      | _ \<Rightarrow> s)"

subsection \<open>Everything that can happen to an instance\<close>

text \<open>
  The socket's four events (the socket sets \<open>protocol\<close> and \<open>extensions\<close> before it
  fires \<open>open\<close>), the \<open>abort\<close> event of the supplied signal, a call of \<open>close\<close>, and the
  caller's operations on the two streams.
\<close>

datatype event =
    SockOpen string string
  | SockMessage WebSocketMessageDataType
  | SockClose int string
  | SockError
  | SignalAbort
  | Close "int option" "string option"
  | Read
  | Cancel
  | Write WebSocketSendType "js_value option"
  | WClose
  | Abort string

text \<open>Line 87: the listener is registered with \<open>once: true\<close>, so it is removed before
  it runs.\<close>

fun step :: "WebSocketStream \<Rightarrow> event \<Rightarrow> WebSocketStream" where
  "step s (SockOpen proto ext) =
     (let s1 = s\<lparr>ws := (ws s)\<lparr>ws_protocol := proto, ws_extensions := ext\<rparr>\<rparr>
      in dispatch invoke_open (on_open (ws s1)) s1)"
| "step s (SockMessage data) = dispatch (invoke_message data) (on_message (ws s)) s"
| "step s (SockClose code rsn) = dispatch (invoke_close code rsn) (on_close (ws s)) s"
| "step s SockError = dispatch invoke_error (on_error (ws s)) s"
| "step s SignalAbort =
     (if abort_listener s then close (s\<lparr>abort_listener := False\<rparr>) None None else s)"
| "step s (Close code rsn) = close s code rsn"
| "step s Read = readable_read s"
| "step s Cancel = readable_cancel s"
| "step s (Write chunk thrown) = writable_write s chunk thrown"
| "step s WClose = writable_close s"
| "step s (Abort rsn) = writable_abort s rsn"

definition run :: "WebSocketStream \<Rightarrow> event list \<Rightarrow> WebSocketStream" where
  "run s evs = foldl step s evs"

subsection \<open>The constructor (lines 83 to 120)\<close>

definition ALLOWED_PROTOCOLS :: "string list" where
  "ALLOWED_PROTOCOLS = [''ws:'', ''wss:'', ''http:'', ''https:'']"

fun join :: "string \<Rightarrow> string list \<Rightarrow> string" where
  "join sep [] = []"
| "join sep [x] = x"
| "join sep (x # y # ys) = x @ sep @ join sep (y # ys)"

definition quoted :: "string \<Rightarrow> string" where
  "quoted p = CHR 0x22 # p @ [CHR 0x22]"

definition invalid_protocol_message :: string where
  "invalid_protocol_message =
     ''Failed to create WebSocketStream. Cause: Invalid URL protocol. Possible values are: ''
       @ join '', '' (map quoted ALLOWED_PROTOCOLS) @ ''.''"

record WebSocketStreamOptions =
  protocols :: "protocols option"
  signal :: bool

text \<open>What the constructor does to its surroundings, in order.\<close>

datatype effect = AddAbortListener | NewWebSocket string "protocols option"

text \<open>The instance as the constructor leaves it, once the socket exists (lines 89 to
  119).\<close>

definition initial :: "string \<Rightarrow> WebSocketStreamOptions \<Rightarrow> WebSocketStream" where
  "initial url opts =
     \<lparr>ws = \<lparr>ctor_url = url, ctor_protocols = protocols opts,
             ws_protocol = [], ws_extensions = [], binaryType = ''arraybuffer'',
             on_open = [OpenedResolve], on_message = [], on_close = [ClosedResolve],
             on_error = [OpenedReject], send_calls = [], close_calls = []\<rparr>,
      opened = Pending, closed = Pending, readables = [], writables = [],
      abort_listener = signal opts, uncaught = []\<rparr>"

text \<open>
  \<open>URL\<close> stands for \<^verbatim>\<open>new URL(url).protocol\<close> (\<open>None\<close> when the parser throws) and
  \<open>WebSocket\<close> for the injected socket constructor (what it throws, if anything).
\<close>

definition constructor ::
  "(string \<Rightarrow> string option) \<Rightarrow> (string \<Rightarrow> protocols option \<Rightarrow> js_value option) \<Rightarrow>
     string \<Rightarrow> WebSocketStreamOptions \<Rightarrow> effect list \<times> (js_value + WebSocketStream)" where
  "constructor URL WebSocket url opts =
     (case URL url of
        None \<Rightarrow> ([], Inl (JSError ''TypeError'' ''Invalid URL''))
      | Some p \<Rightarrow>
          (if p \<notin> set ALLOWED_PROTOCOLS
           then ([], Inl (JSError ''SyntaxError'' invalid_protocol_message))
           else (let fx = (if signal opts then [AddAbortListener] else [])
                            @ [NewWebSocket url (protocols opts)]
                 in case WebSocket url (protocols opts) of
                      Some e \<Rightarrow> (fx, Inl e)
                    | None \<Rightarrow> (fx, Inr (initial url opts)))))"

section \<open>Auxiliary notions\<close>

definition enqueued :: "WebSocketMessageDataType \<Rightarrow> ReadableStream \<Rightarrow> ReadableStream" where
  "enqueued d r = (case controller_enqueue r d of Inl e \<Rightarrow> r | Inr r' \<Rightarrow> r')"

definition close_requested :: "ReadableStream \<Rightarrow> ReadableStream" where
  "close_requested r = (case controller_close r of Inl e \<Rightarrow> r | Inr r' \<Rightarrow> r')"

definition wf :: "WebSocketStream \<Rightarrow> bool" where
  "wf s \<longleftrightarrow>
     on_open (ws s) = [OpenedResolve] \<and> on_error (ws s) = [OpenedReject] \<and>
     on_message (ws s) = map Enqueue [0..<length (readables s)] \<and>
     ClosedResolve \<in> set (on_close (ws s)) \<and>
     (\<forall>h<length (readables s). ReadableClose h \<in> set (on_close (ws s))) \<and>
     (\<forall>h<length (writables s). WritableError h \<in> set (on_close (ws s))) \<and>
     (\<forall>o'. opened s = Fulfilled o' \<longrightarrow>
        readable o' < length (readables s) \<and> writable o' < length (writables s))"

definition rinv :: "ReadableStream \<Rightarrow> bool" where
  "rinv r \<longleftrightarrow>
     (\<forall>e. r_state r \<noteq> RErrored e) \<and>
     (r_state r = RClosed \<longrightarrow> rqueue r = [] \<and> readRequests r = 0) \<and>
     (rqueue r \<noteq> [] \<longrightarrow> readRequests r = 0) \<and>
     (closeRequested r \<and> r_state r = Readable \<longrightarrow> rqueue r \<noteq> [])"

text \<open>
  The reading of a run in which the signal is nothing but a caller of \<open>close()\<close>: the
  first \<open>abort\<close> event of a signal whose listener is registered is replaced by a call of
  \<open>close()\<close> without arguments, and every other \<open>abort\<close> event is dropped.
\<close>

fun signal_as_close :: "bool \<Rightarrow> event list \<Rightarrow> event list" where
  "signal_as_close armed [] = []"
| "signal_as_close armed (SignalAbort # evs) =
     (if armed then Close None None # signal_as_close False evs else signal_as_close False evs)"
| "signal_as_close armed (e # evs) = e # signal_as_close armed evs"

section \<open>Properties of the model\<close>

subsection \<open>Promises\<close>

lemma resolve_simps [simp]:
  "resolve Pending v = Fulfilled v"
  "resolve (Fulfilled x) v = Fulfilled x"
  "resolve (Rejected e) v = Rejected e"
  by (simp_all add: resolve_def)

lemma reject_simps [simp]:
  "reject Pending e = Rejected e"
  "reject (Fulfilled x) e = Fulfilled x"
  "reject (Rejected e') e = Rejected e'"
  by (simp_all add: reject_def)

lemma resolve_idem: "resolve (resolve p v) w = resolve p v"
  by (cases p) simp_all

lemma resolve_settled: "p \<noteq> Pending \<Longrightarrow> resolve p v = p"
  by (cases p) simp_all

lemma reject_settled: "p \<noteq> Pending \<Longrightarrow> reject p v = p"
  by (cases p) simp_all

subsection \<open>Dispatch\<close>

lemma dispatch_field:
  assumes "\<And>l s s'. f l s = Inr s' \<Longrightarrow> F s' = F s"
    and "\<And>s e. F (s\<lparr>uncaught := e\<rparr>) = F s"
  shows "F (dispatch f ls s) = F s"
proof (induction ls arbitrary: s)
  case Nil
  then show ?case by simp
next
  case (Cons l ls)
  show ?case
  proof (cases "f l s")
    case (Inl e)
    then show ?thesis using Cons.IH assms(2) by simp
  next
    case (Inr s')
    then show ?thesis using Cons.IH assms(1) by simp
  qed
qed

subsection \<open>The socket's events, listener by listener\<close>

lemma step_SockOpen:
  assumes "on_open (ws s) = [OpenedResolve]"
  shows "step s (SockOpen p x) =
    s\<lparr>readables := readables s @ [fresh_readable],
      writables := writables s @ [fresh_writable],
      ws := (ws s)\<lparr>ws_protocol := p, ws_extensions := x,
                   on_message := on_message (ws s) @ [Enqueue (length (readables s))],
                   on_close := on_close (ws s) @
                     [ReadableClose (length (readables s)), WritableError (length (writables s))]\<rparr>,
      opened := resolve (opened s)
        \<lparr>extensions = x, protocol = p, readable = length (readables s),
         writable = length (writables s)\<rparr>\<rparr>"
  using assms
  by (simp add: invoke_open_def new_ReadableStream_def new_WritableStream_def Let_def)

lemma step_SockError:
  assumes "on_error (ws s) = [OpenedReject]"
  shows "step s SockError = s\<lparr>opened := reject (opened s) (JSError ''Error'' ''WebSocket error'')\<rparr>"
  using assms by (simp add: invoke_error_def)

subsection \<open>Message dispatch\<close>

lemma message_ws [simp]: "ws (dispatch (invoke_message d) ls s) = ws s"
  by (rule dispatch_field) (auto simp: invoke_message_def split: message_listener.splits if_splits sum.splits)

lemma message_opened [simp]: "opened (dispatch (invoke_message d) ls s) = opened s"
  by (rule dispatch_field) (auto simp: invoke_message_def split: message_listener.splits if_splits sum.splits)

lemma message_closed [simp]: "closed (dispatch (invoke_message d) ls s) = closed s"
  by (rule dispatch_field) (auto simp: invoke_message_def split: message_listener.splits if_splits sum.splits)

lemma message_writables [simp]: "writables (dispatch (invoke_message d) ls s) = writables s"
  by (rule dispatch_field) (auto simp: invoke_message_def split: message_listener.splits if_splits sum.splits)

lemma message_abort_listener [simp]:
  "abort_listener (dispatch (invoke_message d) ls s) = abort_listener s"
  by (rule dispatch_field) (auto simp: invoke_message_def split: message_listener.splits if_splits sum.splits)

lemma message_length [simp]:
  "length (readables (dispatch (invoke_message d) ls s)) = length (readables s)"
  by (rule dispatch_field[where F = "\<lambda>s. length (readables s)"])
     (auto simp: invoke_message_def split: message_listener.splits if_splits sum.splits)

lemma message_nth:
  "distinct ls \<Longrightarrow> h < length (readables s) \<Longrightarrow>
   readables (dispatch (invoke_message d) ls s) ! h =
     (if Enqueue h \<in> set ls then enqueued d (readables s ! h) else readables s ! h)"
proof (induction ls arbitrary: s)
  case Nil
  then show ?case by simp
next
  case (Cons l ls)
  obtain k where l: "l = Enqueue k" by (cases l)
  show ?case
  proof (cases "invoke_message d l s")
    case (Inl e)
    then have "k < length (readables s)" "controller_enqueue (readables s ! k) d = Inl e"
      by (auto simp: l invoke_message_def split: if_splits sum.splits)
    then have "enqueued d (readables s ! k) = readables s ! k"
      by (simp add: enqueued_def)
    with Inl Cons show ?thesis by (auto simp: l)
  next
    case (Inr s')
    then have s': "s' = s \<and> \<not> k < length (readables s) \<or>
        (\<exists>r. controller_enqueue (readables s ! k) d = Inr r \<and> k < length (readables s) \<and>
             s' = s\<lparr>readables := (readables s)[k := r]\<rparr>)"
      by (auto simp: l invoke_message_def split: if_splits sum.splits)
    from Cons.prems have d: "distinct ls" "Enqueue k \<notin> set ls" by (auto simp: l)
    from s' show ?thesis
    proof
      assume "s' = s \<and> \<not> k < length (readables s)"
      with Inr Cons.IH[OF d(1), of s] Cons.prems show ?thesis by (auto simp: l)
    next
      assume "\<exists>r. controller_enqueue (readables s ! k) d = Inr r \<and> k < length (readables s) \<and>
             s' = s\<lparr>readables := (readables s)[k := r]\<rparr>"
      then obtain r where r: "controller_enqueue (readables s ! k) d = Inr r"
        "k < length (readables s)" "s' = s\<lparr>readables := (readables s)[k := r]\<rparr>" by blast
      have "h < length (readables s')" using Cons.prems r by simp
      from Cons.IH[OF d(1) this] Inr r d Cons.prems show ?thesis
        by (auto simp: l enqueued_def nth_list_update)
    qed
  qed
qed

subsection \<open>Close dispatch\<close>

lemma close_ws [simp]: "ws (dispatch (invoke_close c r) ls s) = ws s"
  by (rule dispatch_field) (auto simp: invoke_close_def split: close_listener.splits if_splits sum.splits)

lemma close_opened [simp]: "opened (dispatch (invoke_close c r) ls s) = opened s"
  by (rule dispatch_field) (auto simp: invoke_close_def split: close_listener.splits if_splits sum.splits)

lemma close_abort_listener [simp]:
  "abort_listener (dispatch (invoke_close c r) ls s) = abort_listener s"
  by (rule dispatch_field) (auto simp: invoke_close_def split: close_listener.splits if_splits sum.splits)

lemma close_length_readables [simp]:
  "length (readables (dispatch (invoke_close c r) ls s)) = length (readables s)"
  by (rule dispatch_field[where F = "\<lambda>s. length (readables s)"])
     (auto simp: invoke_close_def split: close_listener.splits if_splits sum.splits)

lemma close_length_writables [simp]:
  "length (writables (dispatch (invoke_close c r) ls s)) = length (writables s)"
  by (rule dispatch_field[where F = "\<lambda>s. length (writables s)"])
     (auto simp: invoke_close_def split: close_listener.splits if_splits sum.splits)

lemma invoke_close_Inr: "\<exists>s'. invoke_close c r l s = Inr s'"
  by (cases l) (auto simp: invoke_close_def split: sum.splits)

lemma close_uncaught [simp]: "uncaught (dispatch (invoke_close c r) ls s) = uncaught s"
proof (induction ls arbitrary: s)
  case Nil
  then show ?case by simp
next
  case (Cons l ls)
  obtain s' where s': "invoke_close c r l s = Inr s'" using invoke_close_Inr by blast
  then have "uncaught s' = uncaught s"
    by (cases l) (auto simp: invoke_close_def split: if_splits sum.splits)
  with s' Cons.IH show ?case by simp
qed

lemma close_closed:
  "closed (dispatch (invoke_close c r) ls s) =
     (if ClosedResolve \<in> set ls then resolve (closed s) \<lparr>closeCode = c, reason = r\<rparr> else closed s)"
proof (induction ls arbitrary: s)
  case Nil
  then show ?case by simp
next
  case (Cons l ls)
  obtain s' where s': "invoke_close c r l s = Inr s'" using invoke_close_Inr by blast
  then have "closed s' =
     (if l = ClosedResolve then resolve (closed s) \<lparr>closeCode = c, reason = r\<rparr> else closed s)"
    by (cases l) (auto simp: invoke_close_def split: if_splits sum.splits)
  with s' Cons.IH show ?case by (simp add: resolve_idem)
qed

lemma close_requested_idem: "close_requested (close_requested r) = close_requested r"
  by (simp add: close_requested_def controller_close_def CanCloseOrEnqueue_def ReadableStreamClose_def)

lemma controller_error_idem: "controller_error (controller_error w e) e = controller_error w e"
  by (simp add: controller_error_def)

lemma close_readables_nth:
  "h < length (readables s) \<Longrightarrow>
   readables (dispatch (invoke_close c r) ls s) ! h =
     (if ReadableClose h \<in> set ls then close_requested (readables s ! h) else readables s ! h)"
proof (induction ls arbitrary: s)
  case Nil
  then show ?case by simp
next
  case (Cons l ls)
  obtain s' where s': "invoke_close c r l s = Inr s'" using invoke_close_Inr by blast
  then have 1: "length (readables s') = length (readables s)"
    and 2: "readables s' ! h =
      (if l = ReadableClose h then close_requested (readables s ! h) else readables s ! h)"
    using Cons.prems
    by (cases l; auto simp: invoke_close_def close_requested_def nth_list_update
          split: if_splits sum.splits)+
  from 1 Cons.prems have "h < length (readables s')" by simp
  from Cons.IH[OF this] s' 2 show ?case by (simp add: close_requested_idem)
qed

lemma close_writables_nth:
  "h < length (writables s) \<Longrightarrow>
   writables (dispatch (invoke_close c r) ls s) ! h =
     (if WritableError h \<in> set ls then controller_error (writables s ! h) Undefined
      else writables s ! h)"
proof (induction ls arbitrary: s)
  case Nil
  then show ?case by simp
next
  case (Cons l ls)
  obtain s' where s': "invoke_close c r l s = Inr s'" using invoke_close_Inr by blast
  then have 1: "length (writables s') = length (writables s)"
    and 2: "writables s' ! h =
      (if l = WritableError h then controller_error (writables s ! h) Undefined else writables s ! h)"
    using Cons.prems
    by (cases l; auto simp: invoke_close_def nth_list_update split: if_splits sum.splits)+
  from 1 Cons.prems have "h < length (writables s')" by simp
  from Cons.IH[OF this] s' 2 show ?case by (simp add: controller_error_idem)
qed

subsection \<open>Well-formed instances\<close>

lemma wf_initial: "wf (initial url opts)"
  by (simp add: wf_def initial_def)

lemma resolve_Fulfilled: "resolve p v = Fulfilled x \<Longrightarrow> p = Fulfilled x \<or> (p = Pending \<and> x = v)"
  by (cases p) auto

lemma reject_Fulfilled: "reject p e = Fulfilled x \<Longrightarrow> p = Fulfilled x"
  by (cases p) auto

lemmas user_defs = close_def ws_close_def ws_send_def readable_read_def readable_cancel_def
  writable_write_def writable_close_def writable_abort_def Let_def

lemma wf_step: "wf s \<Longrightarrow> wf (step s e)"
proof (cases e)
  case (SockOpen p x)
  assume w: "wf s"
  then have o: "on_open (ws s) = [OpenedResolve]" by (simp add: wf_def)
  show ?thesis
    unfolding SockOpen step_SockOpen[OF o]
    using w by (auto simp: wf_def less_Suc_eq dest!: resolve_Fulfilled)
next
  case (SockMessage d)
  assume "wf s" then show ?thesis by (simp add: SockMessage wf_def)
next
  case (SockClose c r)
  assume "wf s" then show ?thesis by (simp add: SockClose wf_def)
next
  case SockError
  assume w: "wf s"
  then have o: "on_error (ws s) = [OpenedReject]" by (simp add: wf_def)
  show ?thesis
    unfolding SockError step_SockError[OF o]
    using w by (auto simp: wf_def dest!: reject_Fulfilled)
next
  case SignalAbort
  assume "wf s" then show ?thesis by (simp add: SignalAbort wf_def user_defs)
next
  case (Close c r)
  assume "wf s" then show ?thesis by (simp add: Close wf_def user_defs)
next
  case Read
  assume "wf s" then show ?thesis
    by (auto simp: Read wf_def user_defs split: promise.splits)
next
  case Cancel
  assume "wf s" then show ?thesis
    by (auto simp: Cancel wf_def user_defs split: promise.splits prod.splits)
next
  case (Write c t)
  assume "wf s" then show ?thesis
    by (auto simp: Write wf_def user_defs split: promise.splits writable_state.splits option.splits)
next
  case WClose
  assume "wf s" then show ?thesis
    by (auto simp: WClose wf_def user_defs split: promise.splits writable_state.splits)
next
  case (Abort x)
  assume "wf s" then show ?thesis
    by (auto simp: Abort wf_def user_defs split: promise.splits writable_state.splits)
qed

lemma run_Nil [simp]: "run s [] = s"
  by (simp add: run_def)

lemma run_Cons [simp]: "run s (e # evs) = run (step s e) evs"
  by (simp add: run_def)

lemma run_append [simp]: "run s (xs @ ys) = run (run s xs) ys"
  by (simp add: run_def)

lemma wf_run: "wf s \<Longrightarrow> wf (run s evs)"
  by (induction evs arbitrary: s) (simp_all add: wf_step)

subsection \<open>The two promises, step by step\<close>

lemma closed_step:
  "wf s \<Longrightarrow> closed (step s e) =
     (case e of SockClose c r \<Rightarrow> resolve (closed s) \<lparr>closeCode = c, reason = r\<rparr> | _ \<Rightarrow> closed s)"
proof (cases e)
  case (SockOpen p x)
  assume w: "wf s"
  then have o: "on_open (ws s) = [OpenedResolve]" by (simp add: wf_def)
  show ?thesis unfolding SockOpen step_SockOpen[OF o] by simp
next
  case SockError
  assume w: "wf s"
  then have o: "on_error (ws s) = [OpenedReject]" by (simp add: wf_def)
  show ?thesis unfolding SockError step_SockError[OF o] by simp
qed (auto simp: close_closed wf_def user_defs split: promise.splits prod.splits
       writable_state.splits option.splits)

lemma opened_step:
  "wf s \<Longrightarrow> opened (step s e) =
     (case e of
        SockOpen p x \<Rightarrow> resolve (opened s)
          \<lparr>extensions = x, protocol = p, readable = length (readables s),
           writable = length (writables s)\<rparr>
      | SockError \<Rightarrow> reject (opened s) (JSError ''Error'' ''WebSocket error'')
      | _ \<Rightarrow> opened s)"
proof (cases e)
  case (SockOpen p x)
  assume w: "wf s"
  then have o: "on_open (ws s) = [OpenedResolve]" by (simp add: wf_def)
  show ?thesis unfolding SockOpen step_SockOpen[OF o] by simp
next
  case SockError
  assume w: "wf s"
  then have o: "on_error (ws s) = [OpenedReject]" by (simp add: wf_def)
  show ?thesis unfolding SockError step_SockError[OF o] by simp
qed (auto simp: wf_def user_defs split: promise.splits prod.splits
       writable_state.splits option.splits)

lemma opened_settled_step: "wf s \<Longrightarrow> opened s \<noteq> Pending \<Longrightarrow> opened (step s e) = opened s"
  by (cases e) (simp_all add: opened_step resolve_settled reject_settled del: step.simps)

lemma opened_settled_run: "wf s \<Longrightarrow> opened s \<noteq> Pending \<Longrightarrow> opened (run s evs) = opened s"
  by (induction evs arbitrary: s) (simp_all add: opened_settled_step wf_step)

lemma closed_settled_step: "wf s \<Longrightarrow> closed s \<noteq> Pending \<Longrightarrow> closed (step s e) = closed s"
  by (cases e) (simp_all add: closed_step resolve_settled del: step.simps)

lemma closed_settled_run: "wf s \<Longrightarrow> closed s \<noteq> Pending \<Longrightarrow> closed (run s evs) = closed s"
  by (induction evs arbitrary: s) (simp_all add: closed_settled_step wf_step)

lemma closed_pending_run:
  "wf s \<Longrightarrow> closed s = Pending \<Longrightarrow> \<forall>c r. SockClose c r \<notin> set evs \<Longrightarrow>
   closed (run s evs) = Pending"
proof (induction evs arbitrary: s)
  case Nil
  then show ?case by simp
next
  case (Cons e evs)
  from Cons.prems have "closed (step s e) = Pending"
    by (cases e) (auto simp: closed_step simp del: step.simps)
  with Cons show ?case by (simp add: wf_step)
qed

lemma closed_not_rejected_run:
  "wf s \<Longrightarrow> closed s \<noteq> Rejected x \<Longrightarrow> closed (run s evs) \<noteq> Rejected x"
proof (induction evs arbitrary: s)
  case Nil
  then show ?case by simp
next
  case (Cons e evs)
  from Cons.prems have "closed (step s e) \<noteq> Rejected x"
    by (cases e; cases "closed s") (auto simp: closed_step simp del: step.simps)
  with Cons show ?case by (simp add: wf_step)
qed

lemma length_readables_step:
  "wf s \<Longrightarrow> length (readables (step s e)) =
     (case e of SockOpen p x \<Rightarrow> Suc (length (readables s)) | _ \<Rightarrow> length (readables s))"
proof (cases e)
  case (SockOpen p x)
  assume w: "wf s"
  then have o: "on_open (ws s) = [OpenedResolve]" by (simp add: wf_def)
  show ?thesis unfolding SockOpen step_SockOpen[OF o] by simp
next
  case SockError
  assume w: "wf s"
  then have o: "on_error (ws s) = [OpenedReject]" by (simp add: wf_def)
  show ?thesis unfolding SockError step_SockError[OF o] by simp
qed (auto simp: wf_def user_defs split: promise.splits prod.splits
       writable_state.splits option.splits)

lemma length_writables_step:
  "wf s \<Longrightarrow> length (writables (step s e)) =
     (case e of SockOpen p x \<Rightarrow> Suc (length (writables s)) | _ \<Rightarrow> length (writables s))"
proof (cases e)
  case (SockOpen p x)
  assume w: "wf s"
  then have o: "on_open (ws s) = [OpenedResolve]" by (simp add: wf_def)
  show ?thesis unfolding SockOpen step_SockOpen[OF o] by simp
next
  case SockError
  assume w: "wf s"
  then have o: "on_error (ws s) = [OpenedReject]" by (simp add: wf_def)
  show ?thesis unfolding SockError step_SockError[OF o] by simp
qed (auto simp: wf_def user_defs split: promise.splits prod.splits
       writable_state.splits option.splits)

lemma before_open_run:
  "wf s \<Longrightarrow> opened s = Pending \<Longrightarrow> \<forall>p x. SockOpen p x \<notin> set evs \<Longrightarrow> SockError \<notin> set evs \<Longrightarrow>
   opened (run s evs) = Pending \<and>
   length (readables (run s evs)) = length (readables s) \<and>
   length (writables (run s evs)) = length (writables s)"
proof (induction evs arbitrary: s)
  case Nil
  then show ?case by simp
next
  case (Cons e evs)
  from Cons.prems have "opened (step s e) = Pending"
    "length (readables (step s e)) = length (readables s)"
    "length (writables (step s e)) = length (writables s)"
    by (cases e; auto simp: opened_step length_readables_step length_writables_step
          simp del: step.simps)+
  with Cons.IH[of "step s e"] Cons.prems show ?case by (simp add: wf_step)
qed

subsection \<open>The error message\<close>

lemma sublist_join: "a \<in> set xs \<Longrightarrow> sublist a (join sep xs)"
proof (induction sep xs rule: join.induct)
  case (1 sep)
  then show ?case by simp
next
  case (2 sep x)
  then show ?case by simp
next
  case (3 sep x y ys)
  show ?case
  proof (cases "a = x")
    case True
    then show ?thesis by simp
  next
    case False
    with 3 have "sublist a (join sep (y # ys))" by simp
    then show ?thesis
      by (simp add: sublist_append)
  qed
qed

lemma message_names_allowed:
  "a \<in> set ALLOWED_PROTOCOLS \<Longrightarrow> sublist (quoted a) invalid_protocol_message"
proof -
  assume "a \<in> set ALLOWED_PROTOCOLS"
  then have "sublist (quoted a) (join '', '' (map quoted ALLOWED_PROTOCOLS))"
    by (intro sublist_join) simp
  then show ?thesis
    unfolding invalid_protocol_message_def by (simp only: sublist_append simp_thms)
qed

subsection \<open>One stream, step by step\<close>

lemma readable_nth_step:
  assumes "wf s" and "h < length (readables s)"
  shows "readables (step s e) ! h =
    (case e of
       SockMessage d \<Rightarrow> enqueued d (readables s ! h)
     | SockClose c r \<Rightarrow> close_requested (readables s ! h)
     | Read \<Rightarrow> (if \<exists>o'. opened s = Fulfilled o' \<and> readable o' = h
                then reader_read (readables s ! h) else readables s ! h)
     | Cancel \<Rightarrow> (if \<exists>o'. opened s = Fulfilled o' \<and> readable o' = h
                  then snd (ReadableStreamCancel (readables s ! h)) else readables s ! h)
     | _ \<Rightarrow> readables s ! h)"
proof (cases e)
  case (SockOpen p x)
  from assms have o: "on_open (ws s) = [OpenedResolve]" by (simp add: wf_def)
  show ?thesis unfolding SockOpen step_SockOpen[OF o] using assms by (simp add: nth_append)
next
  case (SockMessage d)
  from assms have "distinct (on_message (ws s))" "Enqueue h \<in> set (on_message (ws s))"
    by (simp_all add: wf_def distinct_map inj_on_def)
  with assms show ?thesis by (simp add: SockMessage message_nth)
next
  case (SockClose c r)
  from assms have "ReadableClose h \<in> set (on_close (ws s))" by (simp add: wf_def)
  with assms show ?thesis by (simp add: SockClose close_readables_nth)
next
  case SockError
  from assms have o: "on_error (ws s) = [OpenedReject]" by (simp add: wf_def)
  show ?thesis unfolding SockError step_SockError[OF o] by simp
next
  case Read
  with assms show ?thesis
    by (auto simp: user_defs nth_list_update split: promise.splits)
next
  case Cancel
  with assms show ?thesis
    by (auto simp: user_defs nth_list_update split: promise.splits prod.splits)
qed (auto simp: user_defs split: promise.splits)

lemma writable_nth_step:
  assumes "wf s" and "h < length (writables s)"
  shows "writables (step s e) ! h =
    (case e of
       SockClose c r \<Rightarrow> controller_error (writables s ! h) Undefined
     | Write c t \<Rightarrow> (if \<exists>o'. opened s = Fulfilled o' \<and> writable o' = h
                     then writer_write (writables s ! h) t else writables s ! h)
     | WClose \<Rightarrow> (if \<exists>o'. opened s = Fulfilled o' \<and> writable o' = h
                  then writer_close (writables s ! h) else writables s ! h)
     | Abort x \<Rightarrow> (if \<exists>o'. opened s = Fulfilled o' \<and> writable o' = h
                   then writer_abort (writables s ! h) (JSString x) else writables s ! h)
     | _ \<Rightarrow> writables s ! h)"
proof (cases e)
  case (SockOpen p x)
  from assms have o: "on_open (ws s) = [OpenedResolve]" by (simp add: wf_def)
  show ?thesis unfolding SockOpen step_SockOpen[OF o] using assms by (simp add: nth_append)
next
  case (SockClose c r)
  from assms have "WritableError h \<in> set (on_close (ws s))" by (simp add: wf_def)
  with assms show ?thesis by (simp add: SockClose close_writables_nth)
next
  case SockError
  from assms have o: "on_error (ws s) = [OpenedReject]" by (simp add: wf_def)
  show ?thesis unfolding SockError step_SockError[OF o] by simp
next
  case (Write c t)
  with assms show ?thesis
    by (auto simp: user_defs nth_list_update split: promise.splits)
next
  case WClose
  with assms show ?thesis
    by (auto simp: user_defs nth_list_update split: promise.splits)
next
  case (Abort x)
  with assms show ?thesis
    by (auto simp: user_defs nth_list_update split: promise.splits)
qed (auto simp: user_defs split: promise.splits prod.splits)

lemma ws_calls_step:
  assumes "wf s"
  shows "send_calls (ws (step s e)) =
    (case e of
       Write c t \<Rightarrow>
         (if \<exists>o'. opened s = Fulfilled o' \<and> w_state (writables s ! writable o') = Writable
          then send_calls (ws s) @ [c] else send_calls (ws s))
     | _ \<Rightarrow> send_calls (ws s))"
    and "close_calls (ws (step s e)) =
    (case e of
       SignalAbort \<Rightarrow> (if abort_listener s then close_calls (ws s) @ [(None, None)]
                       else close_calls (ws s))
     | Close c r \<Rightarrow> close_calls (ws s) @ [(c, r)]
     | Cancel \<Rightarrow>
         (if \<exists>o'. opened s = Fulfilled o' \<and> r_state (readables s ! readable o') = Readable
          then close_calls (ws s) @ [(None, None)] else close_calls (ws s))
     | WClose \<Rightarrow>
         (if \<exists>o'. opened s = Fulfilled o' \<and> w_state (writables s ! writable o') = Writable
          then close_calls (ws s) @ [(None, None)] else close_calls (ws s))
     | Abort x \<Rightarrow>
         (if \<exists>o'. opened s = Fulfilled o' \<and> w_state (writables s ! writable o') = Writable
          then close_calls (ws s) @ [(None, Some x)] else close_calls (ws s))
     | _ \<Rightarrow> close_calls (ws s))"
proof -
  from assms have o: "on_open (ws s) = [OpenedResolve]" and e: "on_error (ws s) = [OpenedReject]"
    by (simp_all add: wf_def)
  show "send_calls (ws (step s e)) =
    (case e of
       Write c t \<Rightarrow>
         (if \<exists>o'. opened s = Fulfilled o' \<and> w_state (writables s ! writable o') = Writable
          then send_calls (ws s) @ [c] else send_calls (ws s))
     | _ \<Rightarrow> send_calls (ws s))"
    using assms
    by (cases e)
       (auto simp: step_SockOpen[OF o] step_SockError[OF e] user_defs wf_def
          simp del: step.simps(1,4) split: promise.splits prod.splits)
  show "close_calls (ws (step s e)) =
    (case e of
       SignalAbort \<Rightarrow> (if abort_listener s then close_calls (ws s) @ [(None, None)]
                       else close_calls (ws s))
     | Close c r \<Rightarrow> close_calls (ws s) @ [(c, r)]
     | Cancel \<Rightarrow>
         (if \<exists>o'. opened s = Fulfilled o' \<and> r_state (readables s ! readable o') = Readable
          then close_calls (ws s) @ [(None, None)] else close_calls (ws s))
     | WClose \<Rightarrow>
         (if \<exists>o'. opened s = Fulfilled o' \<and> w_state (writables s ! writable o') = Writable
          then close_calls (ws s) @ [(None, None)] else close_calls (ws s))
     | Abort x \<Rightarrow>
         (if \<exists>o'. opened s = Fulfilled o' \<and> w_state (writables s ! writable o') = Writable
          then close_calls (ws s) @ [(None, Some x)] else close_calls (ws s))
     | _ \<Rightarrow> close_calls (ws s))"
    using assms
    by (cases e)
       (auto simp: step_SockOpen[OF o] step_SockError[OF e] user_defs wf_def ReadableStreamCancel_def
          simp del: step.simps(1,4) split: promise.splits prod.splits readable_state.splits)
qed

subsection \<open>Messages and reads\<close>

lemma messages_run:
  assumes w: "wf s1" and o: "opened s1 = Fulfilled o'"
    and r0: "readables s1 ! readable o' = fresh_readable"
    and nc: "\<forall>c r. SockClose c r \<notin> set evs" "Cancel \<notin> set evs"
  shows "CanCloseOrEnqueue (readables (run s1 evs) ! readable o') \<and>
     yielded (readables (run s1 evs) ! readable o') =
       map Item (take (count_list evs Read) [d. SockMessage d \<leftarrow> evs]) \<and>
     rqueue (readables (run s1 evs) ! readable o') =
       drop (count_list evs Read) [d. SockMessage d \<leftarrow> evs] \<and>
     readRequests (readables (run s1 evs) ! readable o') =
       count_list evs Read - length [d. SockMessage d \<leftarrow> evs]"
  using nc
proof (induction evs rule: rev_induct)
  case Nil
  show ?case using r0 by (simp add: fresh_readable_def CanCloseOrEnqueue_def)
next
  case (snoc e evs)
  let ?s = "run s1 evs"
  let ?h = "readable o'"
  let ?k = "count_list evs Read"
  let ?m = "[d. SockMessage d \<leftarrow> evs]"
  have ws: "wf ?s" using w by (rule wf_run)
  have os: "opened ?s = Fulfilled o'" using opened_settled_run[OF w, of evs] o by simp
  with ws have h: "?h < length (readables ?s)" by (simp add: wf_def)
  from snoc have IH: "CanCloseOrEnqueue (readables ?s ! ?h)"
    "yielded (readables ?s ! ?h) = map Item (take ?k ?m)"
    "rqueue (readables ?s ! ?h) = drop ?k ?m"
    "readRequests (readables ?s ! ?h) = ?k - length ?m"
    by simp_all
  note st = readable_nth_step[OF ws h, of e]
  show ?case
  proof (cases e)
    case (SockMessage d)
    show ?thesis
      using st IH
      by (auto simp: SockMessage enqueued_def controller_enqueue_def CanCloseOrEnqueue_def
            simp del: step.simps)
  next
    case Read
    show ?thesis
    proof (cases "drop ?k ?m")
      case Nil
      then show ?thesis
        using st IH os
        by (auto simp: Read reader_read_def CanCloseOrEnqueue_def Suc_diff_le
            simp del: step.simps)
    next
      case (Cons y ys)
      then have "?k < length ?m" by (cases "?k < length ?m") auto
      then have "take (Suc ?k) ?m = take ?k ?m @ [?m ! ?k]" "drop ?k ?m = ?m ! ?k # drop (Suc ?k) ?m"
        by (simp_all add: take_Suc_conv_app_nth Cons_nth_drop_Suc)
      then show ?thesis
        using st IH os \<open>?k < length ?m\<close>
        by (auto simp: Read reader_read_def CanCloseOrEnqueue_def
            simp del: step.simps)
    qed
  next
    case (SockClose c r)
    with snoc.prems have False by auto
    then show ?thesis ..
  next
    case Cancel
    with snoc.prems have False by auto
    then show ?thesis ..
  qed (use st IH in \<open>auto simp del: step.simps\<close>)
qed

lemma after_first_open:
  assumes "\<forall>p x. SockOpen p x \<notin> set pre" and "SockError \<notin> set pre"
  shows "wf (step (run (initial url opts) pre) (SockOpen p x))"
    and "opened (step (run (initial url opts) pre) (SockOpen p x)) =
           Fulfilled \<lparr>extensions = x, protocol = p, readable = 0, writable = 0\<rparr>"
    and "readables (step (run (initial url opts) pre) (SockOpen p x)) = [fresh_readable]"
    and "writables (step (run (initial url opts) pre) (SockOpen p x)) = [fresh_writable]"
proof -
  let ?s = "run (initial url opts) pre"
  have w: "wf ?s" by (simp add: wf_run wf_initial)
  then show "wf (step ?s (SockOpen p x))" by (rule wf_step)
  have 0: "opened (initial url opts) = Pending" "readables (initial url opts) = []"
    "writables (initial url opts) = []"
    by (simp_all add: initial_def)
  from before_open_run[OF wf_initial 0(1) assms] 0
  have 1: "opened ?s = Pending" "readables ?s = []" "writables ?s = []" by simp_all
  from w have o: "on_open (ws ?s) = [OpenedResolve]" by (simp add: wf_def)
  show "opened (step ?s (SockOpen p x)) =
      Fulfilled \<lparr>extensions = x, protocol = p, readable = 0, writable = 0\<rparr>"
    "readables (step ?s (SockOpen p x)) = [fresh_readable]"
    "writables (step ?s (SockOpen p x)) = [fresh_writable]"
    unfolding step_SockOpen[OF o] using 1 by simp_all
qed

subsection \<open>Writes\<close>

lemma writes_run:
  assumes w: "wf s1" and o: "opened s1 = Fulfilled o'"
    and w0: "writables s1 ! writable o' = fresh_writable"
    and nc: "\<forall>c r. SockClose c r \<notin> set evs" "WClose \<notin> set evs" "\<forall>r. Abort r \<notin> set evs"
      "\<forall>c e. Write c (Some e) \<notin> set evs"
  shows "w_state (writables (run s1 evs) ! writable o') = Writable \<and>
     send_calls (ws (run s1 evs)) = send_calls (ws s1) @ [c. Write c t \<leftarrow> evs] \<and>
     write_results (writables (run s1 evs) ! writable o') =
       replicate (length [c. Write c t \<leftarrow> evs]) (Fulfilled ())"
  using nc
proof (induction evs rule: rev_induct)
  case Nil
  show ?case using w0 by (simp add: fresh_writable_def)
next
  case (snoc e evs)
  let ?s = "run s1 evs"
  let ?h = "writable o'"
  have ws: "wf ?s" using w by (rule wf_run)
  have os: "opened ?s = Fulfilled o'" using opened_settled_run[OF w, of evs] o by simp
  with ws have h: "?h < length (writables ?s)" by (simp add: wf_def)
  from snoc have IH: "w_state (writables ?s ! ?h) = Writable"
    "send_calls (ws ?s) = send_calls (ws s1) @ [c. Write c t \<leftarrow> evs]"
    "write_results (writables ?s ! ?h) = replicate (length [c. Write c t \<leftarrow> evs]) (Fulfilled ())"
    by simp_all
  note st = writable_nth_step[OF ws h, of e] ws_calls_step(1)[OF ws, of e]
  show ?case
  proof (cases e)
    case (Write c t)
    with snoc.prems have "t = None" by (cases t) auto
    then show ?thesis
      using st IH os
      by (auto simp: Write writer_write_def replicate_append_same simp del: step.simps)
  next
    case (SockClose c r)
    with snoc.prems have False by auto
    then show ?thesis ..
  next
    case WClose
    with snoc.prems have False by auto
    then show ?thesis ..
  next
    case (Abort r)
    with snoc.prems have False by auto
    then show ?thesis ..
  qed (use st IH in \<open>auto simp del: step.simps\<close>)
qed

lemma before_open_send_calls:
  "wf s \<Longrightarrow> opened s = Pending \<Longrightarrow> \<forall>p x. SockOpen p x \<notin> set evs \<Longrightarrow> SockError \<notin> set evs \<Longrightarrow>
   send_calls (ws (run s evs)) = send_calls (ws s)"
proof (induction evs arbitrary: s)
  case Nil
  then show ?case by simp
next
  case (Cons e evs)
  from Cons.prems have "opened (step s e) = Pending" "send_calls (ws (step s e)) = send_calls (ws s)"
    by (cases e; auto simp: opened_step ws_calls_step(1) simp del: step.simps)+
  with Cons.IH[of "step s e"] Cons.prems show ?case by (simp add: wf_step)
qed

lemma errored_run:
  assumes w: "wf s" and o: "opened s = Fulfilled o'"
    and e: "w_state (writables s ! writable o') = WErrored e"
  shows "w_state (writables (run s evs) ! writable o') = WErrored e \<and>
     send_calls (ws (run s evs)) = send_calls (ws s) \<and>
     write_results (writables (run s evs) ! writable o') =
       write_results (writables s ! writable o') @
         replicate (length [c. Write c t \<leftarrow> evs]) (Rejected e)"
proof (induction evs rule: rev_induct)
  case Nil
  show ?case using e by simp
next
  case (snoc ev evs)
  let ?s = "run s evs"
  let ?h = "writable o'"
  have ws: "wf ?s" using w by (rule wf_run)
  have os: "opened ?s = Fulfilled o'" using opened_settled_run[OF w, of evs] o by simp
  with ws have h: "?h < length (writables ?s)" by (simp add: wf_def)
  note IH = snoc
  note st = writable_nth_step[OF ws h, of ev] ws_calls_step(1)[OF ws, of ev]
  show ?case
    using st IH os
    by (cases ev)
       (auto simp: writer_write_def writer_close_def writer_abort_def controller_error_def
          replicate_append_same simp del: step.simps)
qed

subsection \<open>A stream that is no longer writable stays as it is\<close>

lemma w_state_settled_step:
  assumes "wf s" and "h < length (writables s)" and "w_state (writables s ! h) \<noteq> Writable"
  shows "w_state (writables (step s e) ! h) = w_state (writables s ! h)"
  using writable_nth_step[OF assms(1,2), of e] assms(3)
  by (cases e)
     (auto simp: controller_error_def writer_write_def writer_close_def writer_abort_def
        simp del: step.simps split: writable_state.splits)

lemma length_writables_mono: "wf s \<Longrightarrow> h < length (writables s) \<Longrightarrow> h < length (writables (step s e))"
  by (cases e) (simp_all add: length_writables_step del: step.simps)

lemma length_readables_mono: "wf s \<Longrightarrow> h < length (readables s) \<Longrightarrow> h < length (readables (step s e))"
  by (cases e) (simp_all add: length_readables_step del: step.simps)

lemma w_state_settled_run:
  "wf s \<Longrightarrow> h < length (writables s) \<Longrightarrow> w_state (writables s ! h) \<noteq> Writable \<Longrightarrow>
   w_state (writables (run s evs) ! h) = w_state (writables s ! h)"
proof (induction evs arbitrary: s)
  case Nil
  then show ?case by simp
next
  case (Cons e evs)
  from Cons.prems have "w_state (writables (step s e) ! h) = w_state (writables s ! h)"
    by (simp add: w_state_settled_step del: step.simps)
  with Cons.IH[of "step s e"] Cons.prems show ?case
    by (simp add: wf_step length_writables_mono del: step.simps)
qed

subsection \<open>The inbound streams are never errored\<close>

lemma rinv_fresh: "rinv fresh_readable"
  by (simp add: rinv_def fresh_readable_def)

lemma rinv_enqueued: "rinv r \<Longrightarrow> rinv (enqueued d r)"
  by (auto simp: rinv_def enqueued_def controller_enqueue_def CanCloseOrEnqueue_def)

lemma rinv_close_requested: "rinv r \<Longrightarrow> rinv (close_requested r)"
  by (auto simp: rinv_def close_requested_def controller_close_def CanCloseOrEnqueue_def
        ReadableStreamClose_def)

lemma rinv_reader_read: "rinv r \<Longrightarrow> rinv (reader_read r)"
  by (cases "r_state r"; cases "rqueue r")
     (auto simp: rinv_def reader_read_def ReadableStreamClose_def)

lemma rinv_cancel: "rinv r \<Longrightarrow> rinv (snd (ReadableStreamCancel r))"
  by (cases "r_state r") (auto simp: rinv_def ReadableStreamCancel_def ReadableStreamClose_def)

lemma rinv_step:
  assumes "wf s" and "\<forall>h<length (readables s). rinv (readables s ! h)"
  shows "\<forall>h<length (readables (step s e)). rinv (readables (step s e) ! h)"
proof (intro allI impI)
  fix h assume h: "h < length (readables (step s e))"
  show "rinv (readables (step s e) ! h)"
  proof (cases "h < length (readables s)")
    case True
    with assms have r: "rinv (readables s ! h)" by simp
    from readable_nth_step[OF assms(1) True, of e] r show ?thesis
      by (cases e)
         (auto simp: rinv_enqueued rinv_close_requested rinv_reader_read rinv_cancel
            simp del: step.simps)
  next
    case False
    from assms have o: "on_open (ws s) = [OpenedResolve]" by (simp add: wf_def)
    from False h length_readables_step[OF assms(1), of e]
    obtain p x where e: "e = SockOpen p x" and "h = length (readables s)"
      by (cases e) auto
    then show ?thesis unfolding e step_SockOpen[OF o] by (simp add: rinv_fresh)
  qed
qed

lemma rinv_run:
  "wf s \<Longrightarrow> \<forall>h<length (readables s). rinv (readables s ! h) \<Longrightarrow>
   \<forall>h<length (readables (run s evs)). rinv (readables (run s evs) ! h)"
proof (induction evs arbitrary: s)
  case Nil
  then show ?case by simp
next
  case (Cons e evs)
  from Cons.IH[of "step s e"] Cons.prems show ?case
    using rinv_step wf_step by (simp del: step.simps)
qed

lemma drain:
  "rinv r \<Longrightarrow> \<not> CanCloseOrEnqueue r \<Longrightarrow>
   yielded ((reader_read ^^ Suc (length (rqueue r))) r) = yielded r @ map Item (rqueue r) @ [Done]"
proof (induction "rqueue r" arbitrary: r)
  case Nil
  then have "r_state r = RClosed"
    by (cases "r_state r") (auto simp: rinv_def CanCloseOrEnqueue_def)
  with Nil(1)[symmetric] show ?case by (simp add: reader_read_def)
next
  case (Cons x q)
  note q = Cons.hyps(2)[symmetric]
  have s: "r_state r = Readable"
    using Cons.prems(1) q by (cases "r_state r") (auto simp: rinv_def)
  with Cons.prems(2) have c: "closeRequested r" by (simp add: CanCloseOrEnqueue_def)
  let ?r = "reader_read r"
  have 1: "rinv ?r" using Cons.prems(1) by (rule rinv_reader_read)
  have 2: "\<not> CanCloseOrEnqueue ?r" "rqueue ?r = q" "yielded ?r = yielded r @ [Item x]"
    using s c q Cons.prems(1)
    by (auto simp: reader_read_def CanCloseOrEnqueue_def ReadableStreamClose_def rinv_def)
  from Cons.hyps(1)[OF 2(2)[symmetric] 1 2(1)] 2
  have "yielded ((reader_read ^^ Suc (length q)) ?r) = yielded r @ [Item x] @ map Item q @ [Done]"
    by simp
  moreover have "(reader_read ^^ Suc (length (rqueue r))) r = (reader_read ^^ Suc (length q)) ?r"
    by (simp add: q funpow_swap1)
  ultimately show ?case by (simp add: q del: funpow.simps)
qed

lemma reads_run:
  assumes "wf s" and "opened s = Fulfilled o'"
  shows "readables (run s (replicate n Read)) ! readable o' = (reader_read ^^ n) (readables s ! readable o')"
proof (induction n)
  case 0
  then show ?case by simp
next
  case (Suc n)
  let ?s = "run s (replicate n Read)"
  have ws: "wf ?s" using assms(1) by (rule wf_run)
  have os: "opened ?s = Fulfilled o'" using opened_settled_run[OF assms(1), of "replicate n Read"] assms(2) by simp
  with ws have h: "readable o' < length (readables ?s)" by (simp add: wf_def)
  have "replicate (Suc n) Read = replicate n Read @ [Read]"
    by (simp add: replicate_append_same)
  then have "run s (replicate (Suc n) Read) = step ?s Read"
    by (simp only: run_append run_Cons run_Nil)
  with readable_nth_step[OF ws h, of Read] os Suc show ?case by (simp del: step.simps replicate.simps)
qed

lemma not_Can_close_requested: "\<not> CanCloseOrEnqueue (close_requested r)"
  by (auto simp: close_requested_def controller_close_def CanCloseOrEnqueue_def ReadableStreamClose_def)

lemma rinv_reachable:
  "\<forall>h<length (readables (run (initial url opts) evs)). rinv (readables (run (initial url opts) evs) ! h)"
  by (rule rinv_run[OF wf_initial]) (simp add: initial_def)

lemma reader_completes:
  assumes w: "wf s" and o: "opened s = Fulfilled o'"
    and r: "rinv (readables s ! readable o')" and c: "\<not> CanCloseOrEnqueue (readables s ! readable o')"
  shows "yielded (readables (run s (replicate (Suc (length (rqueue (readables s ! readable o')))) Read))
            ! readable o') =
         yielded (readables s ! readable o') @ map Item (rqueue (readables s ! readable o')) @ [Done]"
  unfolding reads_run[OF w o] by (rule drain[OF r c])

subsection \<open>Exceptions that escape from the message listeners\<close>

lemma message_uncaught_gen:
  "distinct hs \<Longrightarrow> \<forall>h\<in>set hs. h < length (readables s) \<Longrightarrow>
   uncaught (dispatch (invoke_message d) (map Enqueue hs) s) =
     uncaught s @ map (\<lambda>h. JSError ''TypeError'' ''Invalid state: enqueue'')
       (filter (\<lambda>h. \<not> CanCloseOrEnqueue (readables s ! h)) hs)"
proof (induction hs arbitrary: s)
  case Nil
  then show ?case by simp
next
  case (Cons k hs)
  show ?case
  proof (cases "CanCloseOrEnqueue (readables s ! k)")
    case False
    then have i: "invoke_message d (Enqueue k) s = Inl (JSError ''TypeError'' ''Invalid state: enqueue'')"
      using Cons.prems by (simp add: invoke_message_def controller_enqueue_def)
    let ?s = "s\<lparr>uncaught := uncaught s @ [JSError ''TypeError'' ''Invalid state: enqueue'']\<rparr>"
    from Cons.prems have "distinct hs" "\<forall>h\<in>set hs. h < length (readables ?s)" by simp_all
    from Cons.IH[OF this] i False show ?thesis by simp
  next
    case True
    then have "\<exists>r. controller_enqueue (readables s ! k) d = Inr r"
      by (simp add: controller_enqueue_def)
    then obtain r where r: "controller_enqueue (readables s ! k) d = Inr r" ..
    let ?s = "s\<lparr>readables := (readables s)[k := r]\<rparr>"
    from r Cons.prems have i: "invoke_message d (Enqueue k) s = Inr ?s"
      by (simp add: invoke_message_def)
    from Cons.prems have p: "distinct hs" "\<forall>h\<in>set hs. h < length (readables ?s)" "k \<notin> set hs"
      by simp_all
    have "readables ?s ! h = readables s ! h" if "h \<in> set hs" for h
    proof -
      from that p(3) have "k \<noteq> h" by auto
      then show ?thesis by simp
    qed
    then have "filter (\<lambda>h. \<not> CanCloseOrEnqueue (readables ?s ! h)) hs =
        filter (\<lambda>h. \<not> CanCloseOrEnqueue (readables s ! h)) hs"
      by (intro filter_cong refl) simp
    with Cons.IH[OF p(1,2)] i True show ?thesis by simp
  qed
qed

lemma message_uncaught:
  assumes "wf s"
  shows "uncaught (step s (SockMessage d)) =
     uncaught s @ map (\<lambda>r. JSError ''TypeError'' ''Invalid state: enqueue'')
       (filter (\<lambda>r. \<not> CanCloseOrEnqueue r) (readables s))"
proof -
  let ?n = "length (readables s)"
  let ?P = "\<lambda>r. \<not> CanCloseOrEnqueue r"
  let ?T = "JSError ''TypeError'' ''Invalid state: enqueue''"
  from assms have m: "on_message (ws s) = map Enqueue [0..<?n]" by (simp add: wf_def)
  have "filter ?P (readables s) = filter ?P (map (nth (readables s)) [0..<?n])"
    by (simp add: map_nth)
  also have "\<dots> = map (nth (readables s)) (filter (?P \<circ> nth (readables s)) [0..<?n])"
    by (simp only: filter_map)
  finally have "map (\<lambda>r. ?T) (filter ?P (readables s)) =
      map (\<lambda>h. ?T) (filter (\<lambda>h. ?P (readables s ! h)) [0..<?n])"
    by (simp add: comp_def)
  with message_uncaught_gen[of "[0..<?n]" s d] m show ?thesis by simp
qed

subsection \<open>The signal's listener\<close>

lemma flag_out:
  "uncaught_update f (abort_listener_update g s) = abort_listener_update g (uncaught_update f s)"
  "ws_update fw (abort_listener_update g s) = abort_listener_update g (ws_update fw s)"
  "opened_update fo (abort_listener_update g s) = abort_listener_update g (opened_update fo s)"
  "closed_update fc (abort_listener_update g s) = abort_listener_update g (closed_update fc s)"
  "readables_update fr (abort_listener_update g s) = abort_listener_update g (readables_update fr s)"
  "writables_update fx (abort_listener_update g s) = abort_listener_update g (writables_update fx s)"
  by (cases s; simp)+

lemma dispatch_flag:
  assumes "\<And>l s. f l (s\<lparr>abort_listener := b\<rparr>) =
     (case f l s of Inl e \<Rightarrow> Inl e | Inr s' \<Rightarrow> Inr (s'\<lparr>abort_listener := b\<rparr>))"
  shows "dispatch f ls (s\<lparr>abort_listener := b\<rparr>) = (dispatch f ls s)\<lparr>abort_listener := b\<rparr>"
proof (induction ls arbitrary: s)
  case Nil
  then show ?case by simp
next
  case (Cons l ls)
  show ?case
  proof (cases "f l s")
    case (Inl e)
    with assms[of l s] Cons.IH[of "s\<lparr>uncaught := uncaught s @ [e]\<rparr>"]
    show ?thesis by (simp add: flag_out)
  next
    case (Inr s')
    with assms[of l s] Cons.IH[of s'] show ?thesis by simp
  qed
qed

lemma step_flag:
  assumes "e \<noteq> SignalAbort"
  shows "step (s\<lparr>abort_listener := b\<rparr>) e = (step s e)\<lparr>abort_listener := b\<rparr>"
proof (cases e)
  case (SockOpen p x)
  have "dispatch invoke_open ls (t\<lparr>abort_listener := b\<rparr>) =
      (dispatch invoke_open ls t)\<lparr>abort_listener := b\<rparr>" for ls t
    by (rule dispatch_flag)
       (simp add: invoke_open_def new_ReadableStream_def new_WritableStream_def Let_def
          split: open_listener.splits)
  from this[of "on_open (ws s)" "s\<lparr>ws := (ws s)\<lparr>ws_protocol := p, ws_extensions := x\<rparr>\<rparr>"]
  show ?thesis by (simp add: SockOpen flag_out)
next
  case (SockMessage d)
  have "dispatch (invoke_message d) ls (t\<lparr>abort_listener := b\<rparr>) =
      (dispatch (invoke_message d) ls t)\<lparr>abort_listener := b\<rparr>" for ls t
    by (rule dispatch_flag)
       (simp add: invoke_message_def split: message_listener.splits sum.splits)
  then show ?thesis by (simp add: SockMessage)
next
  case (SockClose c r)
  have "dispatch (invoke_close c r) ls (t\<lparr>abort_listener := b\<rparr>) =
      (dispatch (invoke_close c r) ls t)\<lparr>abort_listener := b\<rparr>" for ls t
    by (rule dispatch_flag)
       (simp add: invoke_close_def split: close_listener.splits sum.splits)
  then show ?thesis by (simp add: SockClose)
next
  case SockError
  have "dispatch invoke_error ls (t\<lparr>abort_listener := b\<rparr>) =
      (dispatch invoke_error ls t)\<lparr>abort_listener := b\<rparr>" for ls t
    by (rule dispatch_flag) (simp add: invoke_error_def split: error_listener.splits)
  then show ?thesis by (simp add: SockError)
next
  case SignalAbort
  with assms show ?thesis by simp
next
  case (Close c r)
  then show ?thesis by (simp add: user_defs)
next
  case Read
  then show ?thesis by (simp add: user_defs split: promise.splits)
next
  case Cancel
  then show ?thesis by (simp add: user_defs split: promise.splits prod.splits)
next
  case (Write c t)
  then show ?thesis by (simp add: user_defs split: promise.splits)
next
  case WClose
  then show ?thesis by (simp add: user_defs split: promise.splits)
next
  case (Abort x)
  then show ?thesis by (simp add: user_defs split: promise.splits)
qed

lemma run_flag:
  "SignalAbort \<notin> set evs \<Longrightarrow> run (s\<lparr>abort_listener := b\<rparr>) evs = (run s evs)\<lparr>abort_listener := b\<rparr>"
proof (induction evs arbitrary: s)
  case Nil
  then show ?case by simp
next
  case (Cons e evs)
  then have "e \<noteq> SignalAbort" by auto
  from step_flag[OF this, where s = s and b = b] Cons show ?case by (simp del: step.simps)
qed

lemma flag_step: "e \<noteq> SignalAbort \<Longrightarrow> abort_listener (step s e) = abort_listener s"
proof -
  assume "e \<noteq> SignalAbort"
  from step_flag[OF this, where s = s and b = "abort_listener s"]
  have "step s e = (step s e)\<lparr>abort_listener := abort_listener s\<rparr>" by (simp del: step.simps)
  then have "abort_listener (step s e) = abort_listener ((step s e)\<lparr>abort_listener := abort_listener s\<rparr>)"
    by (rule arg_cong)
  then show ?thesis by (simp del: step.simps)
qed

lemma no_signal_left: "SignalAbort \<notin> set (signal_as_close a evs)"
  by (induction a evs rule: signal_as_close.induct) simp_all

lemma signal_refines_close:
  "(run s evs)\<lparr>abort_listener := False\<rparr> =
   (run s (signal_as_close (abort_listener s) evs))\<lparr>abort_listener := False\<rparr>"
proof (induction evs arbitrary: s)
  case Nil
  then show ?case by simp
next
  case (Cons e evs)
  show ?case
  proof (cases "e = SignalAbort")
    case False
    then have "signal_as_close (abort_listener s) (e # evs) = e # signal_as_close (abort_listener s) evs"
      by (cases e) simp_all
    with Cons[of "step s e"] flag_step[OF False, of s] show ?thesis by (simp del: step.simps)
  next
    case True
    show ?thesis
    proof (cases "abort_listener s")
      case False
      with True Cons[of s] show ?thesis by simp
    next
      case a: True
      let ?s1 = "(step s (Close None None))\<lparr>abort_listener := False\<rparr>"
      have 1: "step s SignalAbort = ?s1" using a by (simp add: user_defs)
      have 2: "abort_listener ?s1 = False" by simp
      have "(run (step s (Close None None)) (signal_as_close False evs))\<lparr>abort_listener := False\<rparr> =
          run ?s1 (signal_as_close False evs)"
        by (rule run_flag[symmetric]) (rule no_signal_left)
      moreover have "(run ?s1 (signal_as_close False evs))\<lparr>abort_listener := False\<rparr> =
          run ?s1 (signal_as_close False evs)"
        using run_flag[OF no_signal_left, where s = ?s1 and b = False and a1 = False and evs1 = evs] by simp
      ultimately show ?thesis
        using Cons[of ?s1] True a 1 2 by (simp del: step.simps)
    qed
  qed
qed

lemma signal_unarmed_run: "\<not> abort_listener s \<Longrightarrow> run s (replicate n SignalAbort) = s"
  by (induction n) simp_all

subsection \<open>Unfolding the model on concrete inputs\<close>

lemmas eval_defs = initial_def invoke_open_def invoke_message_def invoke_close_def invoke_error_def
  new_ReadableStream_def new_WritableStream_def controller_enqueue_def controller_close_def
  CanCloseOrEnqueue_def ReadableStreamClose_def reader_read_def ReadableStreamCancel_def
  controller_error_def writer_write_def writer_close_def writer_abort_def fresh_readable_def
  fresh_writable_def user_defs

section \<open>The claims\<close>

subsection \<open>C1: the \<open>opened\<close> promise\<close>

text \<open>
  C1. \<open>opened\<close> settles exactly once. As long as the socket has fired neither \<open>open\<close> nor
  \<open>error\<close> (whatever else happened), \<open>opened\<close> is pending and no stream has been
  constructed. The first \<open>open\<close> event constructs one readable and one writable stream
  and resolves \<open>opened\<close> with them and with the protocol and extensions that the socket
  holds at that moment; a first \<open>error\<close> event rejects it with \<open>Error('WebSocket error')\<close>.
  Whatever events follow, \<open>opened\<close> keeps that settlement.
\<close>

theorem opened_settles_once:
  assumes "\<forall>p x. SockOpen p x \<notin> set pre" and "SockError \<notin> set pre"
  shows "opened (run (initial url opts) pre) = Pending \<and>
         readables (run (initial url opts) pre) = [] \<and>
         writables (run (initial url opts) pre) = [] \<and>
         opened (run (initial url opts) (pre @ SockOpen p x # post)) =
           Fulfilled \<lparr>extensions = x, protocol = p, readable = 0, writable = 0\<rparr> \<and>
         ws_protocol (ws (step (run (initial url opts) pre) (SockOpen p x))) = p \<and>
         ws_extensions (ws (step (run (initial url opts) pre) (SockOpen p x))) = x \<and>
         readables (step (run (initial url opts) pre) (SockOpen p x)) = [fresh_readable] \<and>
         writables (step (run (initial url opts) pre) (SockOpen p x)) = [fresh_writable] \<and>
         opened (run (initial url opts) (pre @ SockError # post)) =
           Rejected (JSError ''Error'' ''WebSocket error'')"
proof -
  let ?s = "run (initial url opts) pre"
  have w: "wf ?s" by (simp add: wf_run wf_initial)
  have 0: "opened (initial url opts) = Pending" "readables (initial url opts) = []"
    "writables (initial url opts) = []"
    by (simp_all add: initial_def)
  from before_open_run[OF wf_initial 0(1) assms] 0
  have 1: "opened ?s = Pending" "readables ?s = []" "writables ?s = []" by simp_all
  from w have o: "on_open (ws ?s) = [OpenedResolve]" and e: "on_error (ws ?s) = [OpenedReject]"
    by (simp_all add: wf_def)
  have 2: "opened (step ?s (SockOpen p x)) =
      Fulfilled \<lparr>extensions = x, protocol = p, readable = 0, writable = 0\<rparr>"
    "ws_protocol (ws (step ?s (SockOpen p x))) = p"
    "ws_extensions (ws (step ?s (SockOpen p x))) = x"
    "readables (step ?s (SockOpen p x)) = [fresh_readable]"
    "writables (step ?s (SockOpen p x)) = [fresh_writable]"
    unfolding step_SockOpen[OF o] using 1 by simp_all
  have 3: "opened (step ?s SockError) = Rejected (JSError ''Error'' ''WebSocket error'')"
    unfolding step_SockError[OF e] using 1 by simp
  have 4: "opened (run (step ?s (SockOpen p x)) post) = opened (step ?s (SockOpen p x))"
    by (rule opened_settled_run) (simp_all add: wf_step w 2 del: step.simps)
  have 5: "opened (run (step ?s SockError) post) = opened (step ?s SockError)"
    by (rule opened_settled_run) (simp_all add: wf_step w 3 del: step.simps)
  from 1 2 3 4 5 show ?thesis by (simp del: step.simps)
qed

theorem opened_settles_once_witness:
  "opened (run (initial ''ws://localhost'' \<lparr>protocols = None, signal = False\<rparr>)
      [Close None None, SockMessage (String ''early'')]) = Pending \<and>
   opened (run (initial ''ws://localhost'' \<lparr>protocols = None, signal = False\<rparr>)
      ([Close None None, SockMessage (String ''early'')] @ SockOpen ''mqtt'' ''deflate''
         # [SockError, SockOpen ''amqp'' [], SockClose 1000 []]))
     = Fulfilled \<lparr>extensions = ''deflate'', protocol = ''mqtt'', readable = 0, writable = 0\<rparr> \<and>
   opened (run (initial ''ws://localhost'' \<lparr>protocols = None, signal = False\<rparr>)
      ([Close None None, SockMessage (String ''early'')] @ SockError
         # [SockOpen ''amqp'' [], SockError]))
     = Rejected (JSError ''Error'' ''WebSocket error'')"
  using opened_settles_once[of "[Close None None, SockMessage (String ''early'')]"
      "''ws://localhost''" "\<lparr>protocols = None, signal = False\<rparr>" "''mqtt''" "''deflate''"
      "[SockError, SockOpen ''amqp'' [], SockClose 1000 []]"]
    opened_settles_once[of "[Close None None, SockMessage (String ''early'')]"
      "''ws://localhost''" "\<lparr>protocols = None, signal = False\<rparr>" "''mqtt''" "''deflate''"
      "[SockOpen ''amqp'' [], SockError]"]
  by (simp del: run_Cons run_append step.simps)

subsection \<open>C2: the \<open>closed\<close> promise\<close>

text \<open>
  C2. \<open>closed\<close> settles exactly once, on the socket's first \<open>close\<close> event and with the
  code and reason of that event. Before it, whatever happened (a local \<open>close()\<close>, the
  signal, a stream cancel or abort, an \<open>error\<close> event), \<open>closed\<close> is pending; after it,
  whatever follows, \<open>closed\<close> keeps that value.
\<close>

theorem closed_settles_on_first_close:
  assumes "\<forall>c r. SockClose c r \<notin> set pre"
  shows "closed (run (initial url opts) pre) = Pending \<and>
         closed (run (initial url opts) (pre @ SockClose c r # post)) =
           Fulfilled \<lparr>closeCode = c, reason = r\<rparr>"
proof -
  let ?s = "run (initial url opts) pre"
  have w: "wf ?s" by (simp add: wf_run wf_initial)
  have 1: "closed ?s = Pending"
    by (rule closed_pending_run[OF wf_initial _ assms]) (simp add: initial_def)
  have 2: "closed (step ?s (SockClose c r)) = Fulfilled \<lparr>closeCode = c, reason = r\<rparr>"
    using closed_step[OF w, of "SockClose c r"] 1 by (simp del: step.simps)
  have 3: "closed (run (step ?s (SockClose c r)) post) = closed (step ?s (SockClose c r))"
    by (rule closed_settled_run) (simp_all add: wf_step w 2 del: step.simps)
  from 1 2 3 show ?thesis by (simp del: step.simps)
qed

theorem closed_settles_on_first_close_witness:
  "closed (run (initial ''ws://localhost'' \<lparr>protocols = None, signal = True\<rparr>)
      [SockOpen [] [], SockError, SignalAbort, Cancel, Abort ''X'']) = Pending \<and>
   closed (run (initial ''ws://localhost'' \<lparr>protocols = None, signal = True\<rparr>)
      ([SockOpen [] [], SockError, SignalAbort, Cancel, Abort ''X''] @ SockClose 1001 ''Going away''
         # [SockClose 1000 [], SockError])) =
     Fulfilled \<lparr>closeCode = 1001, reason = ''Going away''\<rparr>"
  using closed_settles_on_first_close[of "[SockOpen [] [], SockError, SignalAbort, Cancel, Abort ''X'']"
      "''ws://localhost''" "\<lparr>protocols = None, signal = True\<rparr>" 1001 "''Going away''"
      "[SockClose 1000 [], SockError]"]
  by (simp del: run_Cons run_append step.simps)

subsection \<open>C3: messages reach the reader in order\<close>



subsection \<open>C4: writes reach \<open>send\<close> in order\<close>




subsection \<open>C5: the scheme check\<close>



subsection \<open>C6: which close events error the outbound stream\<close>

text \<open>
  C6. In every reachable state with the streams handed out, a \<open>close\<close> event of the
  socket puts the outbound stream into the error state (with reason \<open>undefined\<close>) exactly
  when the stream is still writable at that moment. A close that follows the stream's own
  graceful close or its abort therefore never errors it: after \<open>writer.close()\<close> the
  stream is closed and stays closed through the close event and whatever follows; after
  \<open>writer.abort(x)\<close> it is errored with \<open>x\<close> and keeps that reason. (A close started
  by \<open>close()\<close>, by the signal or by a reader's cancel leaves the outbound stream
  writable, so the close event that answers it does error the stream.)
\<close>

theorem close_event_errors_only_writable_stream:
  assumes "s = run (initial url opts) evs" and "opened s = Fulfilled o'"
  shows "w_state (writables (step s (SockClose c r)) ! writable o') =
           (if w_state (writables s ! writable o') = Writable then WErrored Undefined
            else w_state (writables s ! writable o')) \<and>
         (w_state (writables s ! writable o') = Writable \<longrightarrow>
            w_state (writables (step s WClose) ! writable o') = WClosed \<and>
            w_state (writables (run s (WClose # mid @ SockClose c r # post)) ! writable o') = WClosed \<and>
            w_state (writables (step s (Abort x)) ! writable o') = WErrored (JSString x) \<and>
            w_state (writables (run s (Abort x # mid @ SockClose c r # post)) ! writable o') =
              WErrored (JSString x))"
proof -
  let ?h = "writable o'"
  have ws: "wf s" unfolding assms(1) by (rule wf_run[OF wf_initial])
  with assms(2) have h: "?h < length (writables s)" by (simp add: wf_def)
  have 1: "w_state (writables (step s (SockClose c r)) ! ?h) =
           (if w_state (writables s ! ?h) = Writable then WErrored Undefined
            else w_state (writables s ! ?h))"
    using writable_nth_step[OF ws h, of "SockClose c r"]
    by (simp add: controller_error_def del: step.simps)
  have 2: "w_state (writables (step s WClose) ! ?h) = WClosed"
      "w_state (writables (step s (Abort x)) ! ?h) = WErrored (JSString x)"
    if "w_state (writables s ! ?h) = Writable"
    using writable_nth_step[OF ws h, of WClose] writable_nth_step[OF ws h, of "Abort x"]
      that assms(2)
    by (simp_all add: writer_close_def writer_abort_def del: step.simps)
  have "w_state (writables (run (step s e) evs') ! ?h) = w_state (writables (step s e) ! ?h)"
    if "w_state (writables (step s e) ! ?h) \<noteq> Writable" for e evs'
    using that by (intro w_state_settled_run wf_step ws length_writables_mono h)
  then have 3: "w_state (writables (run s (e # evs')) ! ?h) = w_state (writables (step s e) ! ?h)"
    if "w_state (writables (step s e) ! ?h) \<noteq> Writable" for e evs'
    using that by (simp del: step.simps)
  from 1 2 3[of WClose "mid @ SockClose c r # post"] 3[of "Abort x" "mid @ SockClose c r # post"]
  show ?thesis
    by (simp del: step.simps run_Cons run_append)
qed

theorem close_event_errors_only_writable_stream_witness:
  "w_state (writables (step (run (initial ''ws://localhost'' \<lparr>protocols = None, signal = False\<rparr>)
       [SockOpen [] []]) (SockClose 1001 ''Going away'')) ! 0) = WErrored Undefined \<and>
   w_state (writables (run (run (initial ''ws://localhost'' \<lparr>protocols = None, signal = False\<rparr>)
       [SockOpen [] []]) (WClose # [Read] @ SockClose 1000 [] # [Write (SendString ''x'') None])) ! 0)
     = WClosed \<and>
   w_state (writables (run (run (initial ''ws://localhost'' \<lparr>protocols = None, signal = False\<rparr>)
       [SockOpen [] []]) (Abort ''X'' # [Read] @ SockClose 1000 ''X'' # [Write (SendString ''x'') None])) ! 0)
     = WErrored (JSString ''X'')"
proof -
  let ?s = "run (initial ''ws://localhost'' \<lparr>protocols = None, signal = False\<rparr>) [SockOpen [] []]"
  let ?o = "\<lparr>extensions = [], protocol = [], readable = 0, writable = 0\<rparr>"
  have o: "opened ?s = Fulfilled ?o"
    by (simp add: initial_def invoke_open_def new_ReadableStream_def new_WritableStream_def)
  have w: "w_state (writables ?s ! 0) = Writable"
    by (simp add: initial_def invoke_open_def new_ReadableStream_def new_WritableStream_def
        fresh_writable_def)
  from close_event_errors_only_writable_stream[OF refl o,
      of 1001 "''Going away''" "[Read]" "[Write (SendString ''x'') None]" "''X''"]
    close_event_errors_only_writable_stream[OF refl o,
      of 1000 "[]" "[Read]" "[Write (SendString ''x'') None]" "''X''"]
    close_event_errors_only_writable_stream[OF refl o,
      of 1000 "''X''" "[Read]" "[Write (SendString ''x'') None]" "''X''"]
    w
  show ?thesis by (simp del: run_Cons run_append step.simps)
qed

subsection \<open>C7: aborting the outbound stream\<close>



subsection \<open>C8: the close listener of the inbound stream\<close>

text \<open>
  C8. The close listener of an inbound stream never lets an exception escape: it closes
  the stream if the stream still accepts chunks (at once when the queue is empty, after
  the queued chunks otherwise), and when the stream is already closed, close-requested or
  errored, \<open>controller.close()\<close> throws a TypeError that the listener catches, leaving
  everything as it was. So in every reachable state a \<open>close\<close> event of the socket
  reports no exception, leaves the handed-out inbound stream closed or closing, and never
  errors it. No other exception of the model is caught: the TypeError of
  \<open>controller.enqueue\<close> for a message that arrives on a stream that takes no more chunks
  escapes from the message listener and is reported, once per such stream; an exception
  of the socket's \<open>send\<close> rejects the write; an exception of the URL parser or of the
  socket constructor leaves the constructor of \<open>WebSocketStream\<close>.
\<close>

theorem close_listener_alone_swallows:
  assumes "s = run (initial url opts) evs" and "opened s = Fulfilled o'"
  shows "invoke_close c r (ReadableClose h) t =
           Inr (if h < length (readables t) \<and> CanCloseOrEnqueue (readables t ! h)
                then t\<lparr>readables := (readables t)[h :=
                       if rqueue (readables t ! h) = []
                       then ReadableStreamClose ((readables t ! h)\<lparr>closeRequested := True\<rparr>)
                       else (readables t ! h)\<lparr>closeRequested := True\<rparr>]\<rparr>
                else t) \<and>
         (\<not> CanCloseOrEnqueue (readables t ! h) \<longrightarrow>
            controller_close (readables t ! h) = Inl (JSError ''TypeError'' ''Invalid state: close'')) \<and>
         uncaught (step s (SockClose c r)) = uncaught s \<and>
         readables (step s (SockClose c r)) ! readable o' =
           (if CanCloseOrEnqueue (readables s ! readable o')
            then if rqueue (readables s ! readable o') = []
                 then ReadableStreamClose ((readables s ! readable o')\<lparr>closeRequested := True\<rparr>)
                 else (readables s ! readable o')\<lparr>closeRequested := True\<rparr>
            else readables s ! readable o') \<and>
         (\<forall>e. r_state (readables (step s (SockClose c r)) ! readable o') \<noteq> RErrored e) \<and>
         uncaught (step s (SockMessage d)) =
           uncaught s @ map (\<lambda>r. JSError ''TypeError'' ''Invalid state: enqueue'')
             (filter (\<lambda>r. \<not> CanCloseOrEnqueue r) (readables s)) \<and>
         (w_state (writables s ! writable o') = Writable \<longrightarrow>
            write_results (writables (step s (Write chunk (Some e))) ! writable o') =
              write_results (writables s ! writable o') @ [Rejected e]) \<and>
         (URL url' = None \<longrightarrow>
            snd (constructor URL WebSocket url' opts') = Inl (JSError ''TypeError'' ''Invalid URL'')) \<and>
         (URL url' = Some p \<and> p \<in> set ALLOWED_PROTOCOLS \<and> WebSocket url' (protocols opts') = Some e
            \<longrightarrow> snd (constructor URL WebSocket url' opts') = Inl e)"
proof -
  let ?h = "readable o'"
  have ws: "wf s" unfolding assms(1) by (rule wf_run[OF wf_initial])
  with assms(2) have h: "?h < length (readables s)" "writable o' < length (writables s)"
    by (simp_all add: wf_def)
  have 1: "invoke_close c r (ReadableClose h) t =
           Inr (if h < length (readables t) \<and> CanCloseOrEnqueue (readables t ! h)
                then t\<lparr>readables := (readables t)[h :=
                       if rqueue (readables t ! h) = []
                       then ReadableStreamClose ((readables t ! h)\<lparr>closeRequested := True\<rparr>)
                       else (readables t ! h)\<lparr>closeRequested := True\<rparr>]\<rparr>
                else t)"
    by (simp add: invoke_close_def controller_close_def)
  have 2: "\<not> CanCloseOrEnqueue (readables t ! h) \<longrightarrow>
            controller_close (readables t ! h) = Inl (JSError ''TypeError'' ''Invalid state: close'')"
    by (simp add: controller_close_def)
  have 3: "uncaught (step s (SockClose c r)) = uncaught s" by simp
  have 4: "readables (step s (SockClose c r)) ! ?h =
           (if CanCloseOrEnqueue (readables s ! ?h)
            then if rqueue (readables s ! ?h) = []
                 then ReadableStreamClose ((readables s ! ?h)\<lparr>closeRequested := True\<rparr>)
                 else (readables s ! ?h)\<lparr>closeRequested := True\<rparr>
            else readables s ! ?h)"
    using readable_nth_step[OF ws h(1), of "SockClose c r"]
    by (simp add: close_requested_def controller_close_def del: step.simps)
  have "s = run (initial url opts) evs \<Longrightarrow> step s (SockClose c r) = run (initial url opts) (evs @ [SockClose c r])"
    by (simp del: step.simps)
  with assms(1) rinv_reachable[of url opts "evs @ [SockClose c r]"]
    length_readables_mono[OF ws h(1), of "SockClose c r"]
  have "rinv (readables (step s (SockClose c r)) ! ?h)"
    by (simp del: step.simps run_append)
  then have 5: "\<forall>e. r_state (readables (step s (SockClose c r)) ! ?h) \<noteq> RErrored e"
    by (simp add: rinv_def)
  note 6 = message_uncaught[OF ws, of d]
  have 7: "w_state (writables s ! writable o') = Writable \<longrightarrow>
            write_results (writables (step s (Write chunk (Some e))) ! writable o') =
              write_results (writables s ! writable o') @ [Rejected e]"
    using writable_nth_step[OF ws h(2), of "Write chunk (Some e)"] assms(2)
    by (simp add: writer_write_def del: step.simps)
  have 8: "URL url' = None \<longrightarrow>
            snd (constructor URL WebSocket url' opts') = Inl (JSError ''TypeError'' ''Invalid URL'')"
    "URL url' = Some p \<and> p \<in> set ALLOWED_PROTOCOLS \<and> WebSocket url' (protocols opts') = Some e
            \<longrightarrow> snd (constructor URL WebSocket url' opts') = Inl e"
    by (simp_all add: constructor_def Let_def)
  from 1 2 3 4 5 6 7 8 show ?thesis by (simp only: simp_thms)
qed

theorem close_listener_alone_swallows_witness:
  "uncaught (step (run (initial ''ws://localhost'' \<lparr>protocols = None, signal = False\<rparr>)
       [SockOpen [] [], Cancel]) (SockClose 1000 [])) = [] \<and>
   readables (step (run (initial ''ws://localhost'' \<lparr>protocols = None, signal = False\<rparr>)
       [SockOpen [] [], Cancel]) (SockClose 1000 [])) ! 0 =
     readables (run (initial ''ws://localhost'' \<lparr>protocols = None, signal = False\<rparr>)
       [SockOpen [] [], Cancel]) ! 0 \<and>
   uncaught (step (run (initial ''ws://localhost'' \<lparr>protocols = None, signal = False\<rparr>)
       [SockOpen [] [], Cancel]) (SockMessage (String ''late''))) =
     [JSError ''TypeError'' ''Invalid state: enqueue'']"
proof -
  let ?s = "run (initial ''ws://localhost'' \<lparr>protocols = None, signal = False\<rparr>) [SockOpen [] [], Cancel]"
  let ?o = "\<lparr>extensions = [], protocol = [], readable = 0, writable = 0\<rparr>"
  have o: "opened ?s = Fulfilled ?o" by (simp add: eval_defs)
  have r: "readables ?s = [\<lparr>r_state = RClosed, rqueue = [], closeRequested = False,
      readRequests = 0, yielded = []\<rparr>]" "uncaught ?s = []"
    by (simp_all add: eval_defs)
  from close_listener_alone_swallows[OF refl o, of 1000 "[]" 0 ?s "String ''late''"]
  show ?thesis
    using r by (simp add: CanCloseOrEnqueue_def del: step.simps run_Cons run_append)
qed

subsection \<open>C9: the cancellation signal\<close>

text \<open>
  C9. In every reachable state in which the one-shot listener is still registered on the
  supplied signal, the signal's \<open>abort\<close> event does exactly what \<open>close()\<close> without
  arguments does, one call of the socket's \<open>close\<close> with neither code nor reason, and
  removes the listener; firing the signal again, any number of times, changes nothing.
  Hence every run equals, up to the listener's registration, the run in which the first
  \<open>abort\<close> event is replaced by a call of \<open>close()\<close> and the later ones are dropped.
  In particular, when the socket answers with its \<open>close\<close> event, the outcome is that of
  \<open>close()\<close>: \<open>closed\<close>, if still pending, is fulfilled with the event's code and
  reason, a writable outbound stream is errored with \<open>undefined\<close>, and the inbound stream
  is completed, not errored.
\<close>

theorem signal_fires_close_once:
  assumes "s = run (initial url opts) pre" and "abort_listener s"
    and "s2 = step (step s SignalAbort) (SockClose c r)"
  shows "step s SignalAbort = (step s (Close None None))\<lparr>abort_listener := False\<rparr> \<and>
         close_calls (ws (step s SignalAbort)) = close_calls (ws s) @ [(None, None)] \<and>
         run s (replicate (Suc n) SignalAbort) = step s SignalAbort \<and>
         (run s evs)\<lparr>abort_listener := False\<rparr> =
           (run s (signal_as_close True evs))\<lparr>abort_listener := False\<rparr> \<and>
         SignalAbort \<notin> set (signal_as_close True evs) \<and>
         s2 = (step (step s (Close None None)) (SockClose c r))\<lparr>abort_listener := False\<rparr> \<and>
         (closed s = Pending \<longrightarrow> closed s2 = Fulfilled \<lparr>closeCode = c, reason = r\<rparr>) \<and>
         (opened s = Fulfilled o' \<longrightarrow>
            (w_state (writables s ! writable o') = Writable \<longrightarrow>
               w_state (writables s2 ! writable o') = WErrored Undefined) \<and>
            \<not> CanCloseOrEnqueue (readables s2 ! readable o') \<and>
            (\<forall>e. r_state (readables s2 ! readable o') \<noteq> RErrored e))"
proof -
  let ?s1 = "step s SignalAbort"
  have ws: "wf s" unfolding assms(1) by (rule wf_run[OF wf_initial])
  have ws1: "wf ?s1" using ws by (rule wf_step)
  have 1: "?s1 = (step s (Close None None))\<lparr>abort_listener := False\<rparr>"
    using assms(2) by (simp add: user_defs)
  have 2: "close_calls (ws ?s1) = close_calls (ws s) @ [(None, None)]"
    using assms(2) by (simp add: user_defs)
  have "\<not> abort_listener ?s1" using assms(2) by (simp add: user_defs)
  from signal_unarmed_run[OF this, of n]
  have 3: "run s (replicate (Suc n) SignalAbort) = ?s1" by (simp del: step.simps)
  have 4: "(run s evs)\<lparr>abort_listener := False\<rparr> =
           (run s (signal_as_close True evs))\<lparr>abort_listener := False\<rparr>"
    using signal_refines_close[of s evs] assms(2) by simp
  note 5 = no_signal_left[of True evs]
  have 6: "s2 = (step (step s (Close None None)) (SockClose c r))\<lparr>abort_listener := False\<rparr>"
    unfolding assms(3) 1 by (rule step_flag) simp
  have 7: "closed s2 = Fulfilled \<lparr>closeCode = c, reason = r\<rparr>" if "closed s = Pending"
    unfolding assms(3)
    using closed_step[OF ws1, of "SockClose c r"] closed_step[OF ws, of SignalAbort] that
    by (simp del: step.simps)
  have 8: "(w_state (writables s ! writable o') = Writable \<longrightarrow>
               w_state (writables s2 ! writable o') = WErrored Undefined) \<and>
            \<not> CanCloseOrEnqueue (readables s2 ! readable o') \<and>
            (\<forall>e. r_state (readables s2 ! readable o') \<noteq> RErrored e)"
    if o: "opened s = Fulfilled o'"
  proof -
    from ws o have h: "readable o' < length (readables s)" "writable o' < length (writables s)"
      by (simp_all add: wf_def)
    then have h1: "readable o' < length (readables ?s1)" "writable o' < length (writables ?s1)"
      using ws by (simp_all add: length_readables_mono length_writables_mono del: step.simps)
    have a: "writables s2 ! writable o' = controller_error (writables s ! writable o') Undefined"
      unfolding assms(3)
      using writable_nth_step[OF ws1 h1(2), of "SockClose c r"]
        writable_nth_step[OF ws h(2), of SignalAbort]
      by (simp del: step.simps)
    have b: "readables s2 ! readable o' = close_requested (readables ?s1 ! readable o')"
      unfolding assms(3) using readable_nth_step[OF ws1 h1(1), of "SockClose c r"]
      by (simp del: step.simps)
    have "s2 = run (initial url opts) (pre @ [SignalAbort, SockClose c r])"
      unfolding assms(3) assms(1) by (simp del: step.simps)
    moreover have "readable o' < length (readables s2)"
      unfolding assms(3) using h1(1) ws1 by (rule length_readables_mono[rotated])
    ultimately have "rinv (readables s2 ! readable o')"
      using rinv_reachable[of url opts "pre @ [SignalAbort, SockClose c r]"]
      by (simp del: step.simps run_append run_Cons)
    with a b show ?thesis
      by (simp add: controller_error_def not_Can_close_requested rinv_def)
  qed
  show ?thesis
    using 7 8 by (intro conjI impI 1 2 3 4 5 6) blast+
qed

theorem signal_fires_close_once_witness:
  "close_calls (ws (run (run (initial ''ws://localhost'' \<lparr>protocols = None, signal = True\<rparr>)
       [SockOpen [] []]) (replicate (Suc 2) SignalAbort))) = [(None, None)] \<and>
   (run (run (initial ''ws://localhost'' \<lparr>protocols = None, signal = True\<rparr>) [SockOpen [] []])
       [SockMessage (String ''a''), SignalAbort, SignalAbort, SockClose 1000 []])
     \<lparr>abort_listener := False\<rparr> =
   (run (run (initial ''ws://localhost'' \<lparr>protocols = None, signal = True\<rparr>) [SockOpen [] []])
       [SockMessage (String ''a''), Close None None, SockClose 1000 []])
     \<lparr>abort_listener := False\<rparr> \<and>
   closed (step (step (run (initial ''ws://localhost'' \<lparr>protocols = None, signal = True\<rparr>)
       [SockOpen [] []]) SignalAbort) (SockClose 1000 [])) =
     Fulfilled \<lparr>closeCode = 1000, reason = []\<rparr> \<and>
   w_state (writables (step (step (run (initial ''ws://localhost'' \<lparr>protocols = None, signal = True\<rparr>)
       [SockOpen [] []]) SignalAbort) (SockClose 1000 [])) ! 0) = WErrored Undefined"
proof -
  let ?s = "run (initial ''ws://localhost'' \<lparr>protocols = None, signal = True\<rparr>) [SockOpen [] []]"
  let ?o = "\<lparr>extensions = [], protocol = [], readable = 0, writable = 0\<rparr>"
  have a: "abort_listener ?s" by (simp add: eval_defs)
  have o: "opened ?s = Fulfilled ?o" "closed ?s = Pending" "close_calls (ws ?s) = []"
    "w_state (writables ?s ! 0) = Writable"
    by (simp_all add: eval_defs)
  let ?evs = "[SockMessage (String ''a''), SignalAbort, SignalAbort, SockClose 1000 []]"
  let ?s2 = "step (step ?s SignalAbort) (SockClose 1000 [])"
  note t = signal_fires_close_once[OF refl a refl, where c = 1000 and r = "[]" and n = 2
      and evs = ?evs and o' = ?o]
  from t have c2: "close_calls (ws (step ?s SignalAbort)) = close_calls (ws ?s) @ [(None, None)]"
    by blast
  from t have c3: "run ?s (replicate (Suc 2) SignalAbort) = step ?s SignalAbort"
    by blast
  from t have c4: "(run ?s ?evs)\<lparr>abort_listener := False\<rparr> =
      (run ?s (signal_as_close True ?evs))\<lparr>abort_listener := False\<rparr>"
    by blast
  from t o(2) have c7: "closed ?s2 = Fulfilled \<lparr>closeCode = 1000, reason = []\<rparr>"
    by blast
  from t o(1) have "w_state (writables ?s ! writable ?o) = Writable \<longrightarrow>
      w_state (writables ?s2 ! writable ?o) = WErrored Undefined"
    by blast
  with o(4) have c8: "w_state (writables ?s2 ! 0) = WErrored Undefined" by simp
  have e: "signal_as_close True ?evs = [SockMessage (String ''a''), Close None None, SockClose 1000 []]"
    by simp
  have A: "close_calls (ws (run ?s (replicate (Suc 2) SignalAbort))) = [(None, None)]"
    by (simp only: c3 c2 o(3) append_Nil)
  from c4 have B: "(run ?s ?evs)\<lparr>abort_listener := False\<rparr> =
      (run ?s [SockMessage (String ''a''), Close None None, SockClose 1000 []])\<lparr>abort_listener := False\<rparr>"
    by (simp only: e)
  from A B c7 c8 show ?thesis by (intro conjI)
qed

subsection \<open>C10: \<open>closed\<close> never rejects\<close>

text \<open>
  C10. After every sequence of events, \<open>closed\<close> is not rejected: it is pending or
  fulfilled.
\<close>

theorem closed_never_rejects:
  "closed (run (initial url opts) evs) \<noteq> Rejected e"
  by (rule closed_not_rejected_run[OF wf_initial]) (simp add: initial_def)

theorem closed_never_rejects_witness:
  "closed (run (initial ''ws://localhost'' \<lparr>protocols = None, signal = False\<rparr>)
      [SockError, SockClose 1006 []]) \<noteq> Rejected (JSError ''Error'' ''WebSocket error'')"
  by (rule closed_never_rejects)

end
